theory Spec2Isabelle
  imports Main "HOL-Library.Word" "HOL-Library.Product_Lexorder"
begin

unbundle bit_operations_syntax

section \<open>Input streams\<close>

text \<open>
  \<^verbatim>\<open>std::istream\<close> as far as \<^verbatim>\<open>PfmImageLoader.cpp\<close> uses it: the bytes behind the
  stream, the read position, the three error flags and the count of the last unformatted
  read. Bytes are \<^typ>\<open>char\<close> (8 bits), so a header is written as a string literal.
\<close>

record istream =
  content :: string
  gpos :: nat
  eofbit :: bool
  failbit :: bool
  badbit :: bool
  gcount :: nat

definition good :: "istream \<Rightarrow> bool" where
  "good s = (\<not> eofbit s \<and> \<not> failbit s \<and> \<not> badbit s)"

text \<open>\<^verbatim>\<open>fail()\<close>; the conversion of a stream to \<^verbatim>\<open>bool\<close> is its negation.\<close>

definition fail :: "istream \<Rightarrow> bool" where
  "fail s = (failbit s \<or> badbit s)"

text \<open>The bytes not yet consumed.\<close>

definition remaining :: "istream \<Rightarrow> string" where
  "remaining s = drop (gpos s) (content s)"

text \<open>
  The number of bytes an unformatted read can still get: none from a stream that is not
  good.
\<close>

definition available :: "istream \<Rightarrow> nat" where
  "available s = (if good s then length (remaining s) else 0)"

text \<open>\<^verbatim>\<open>isspace\<close> in the classic locale: space, and the bytes 9 to 13.\<close>

definition isspace :: "char \<Rightarrow> bool" where
  "isspace c = (c = CHR '' '' \<or> c = CHR 0x09 \<or> c = CHR 0x0A \<or> c = CHR 0x0B
     \<or> c = CHR 0x0C \<or> c = CHR 0x0D)"

definition isdigit :: "char \<Rightarrow> bool" where
  "isdigit c = (48 \<le> (of_char c :: nat) \<and> (of_char c :: nat) \<le> 57)"

text \<open>
  The sentry every input function constructs first. On a stream that is not \<open>good\<close> it
  sets \<open>failbit\<close> and the function does nothing. A formatted function
  (\<open>noskipws = False\<close>) then skips white space, and reaching the end there sets
  \<open>eofbit\<close> and \<open>failbit\<close>.
\<close>

definition sentry :: "bool \<Rightarrow> istream \<Rightarrow> bool \<times> istream" where
  "sentry noskipws s =
     (if \<not> good s then (False, s\<lparr>failbit := True\<rparr>)
      else if noskipws then (True, s)
      else
        let k = length (takeWhile isspace (remaining s)) in
        if k = length (remaining s)
        then (False, s\<lparr>gpos := gpos s + k, eofbit := True, failbit := True\<rparr>)
        else (True, s\<lparr>gpos := gpos s + k\<rparr>))"

text \<open>
  \<^verbatim>\<open>iStream.read(b, n)\<close>: up to \<open>n\<close> bytes, \<open>gcount\<close> the number read; fewer than \<open>n\<close>
  sets \<open>eofbit\<close> and \<open>failbit\<close>. The bytes read are returned.
\<close>

definition read :: "istream \<Rightarrow> nat \<Rightarrow> istream \<times> string" where
  "read s n =
     (case sentry True (s\<lparr>gcount := 0\<rparr>) of
        (False, s') \<Rightarrow> (s', [])
      | (True, s') \<Rightarrow>
          let got = take n (remaining s') in
          (s'\<lparr>gpos := gpos s' + length got, gcount := length got,
              eofbit := length got < n, failbit := length got < n\<rparr>, got))"

text \<open>\<^verbatim>\<open>iStream.get(c)\<close>: one byte, or \<open>None\<close> with \<open>eofbit\<close> and \<open>failbit\<close> set.\<close>

definition get :: "istream \<Rightarrow> istream \<times> char option" where
  "get s =
     (case sentry True (s\<lparr>gcount := 0\<rparr>) of
        (False, s') \<Rightarrow> (s', None)
      | (True, s') \<Rightarrow>
          (case remaining s' of
             [] \<Rightarrow> (s'\<lparr>eofbit := True, failbit := True\<rparr>, None)
           | c # _ \<Rightarrow> (s'\<lparr>gpos := gpos s' + 1, gcount := 1\<rparr>, Some c)))"

text \<open>\<^verbatim>\<open>iStream.clear()\<close> and \<^verbatim>\<open>iStream.seekg(p)\<close> (which clears \<open>eofbit\<close> first and
  does nothing on a failed stream).\<close>

definition clear :: "istream \<Rightarrow> istream" where
  "clear s = s\<lparr>eofbit := False, failbit := False, badbit := False\<rparr>"

definition seekg :: "istream \<Rightarrow> nat \<Rightarrow> istream" where
  "seekg s p = (let s' = s\<lparr>eofbit := False\<rparr> in if fail s' then s' else s'\<lparr>gpos := p\<rparr>)"

section \<open>The format sniff\<close>

text \<open>
  \<^verbatim>\<open>PfmImageLoader::canLoadFile\<close> (lines 13 to 22). The two bytes of \<open>b\<close> are looked at
  only when both were read, as the short-circuit conjunction of the source does.
\<close>

definition canLoadFile :: "istream \<Rightarrow> bool \<times> istream" where
  "canLoadFile iStream =
     (let (s1, b) = read iStream 2;
          result = (if fail s1 \<or> gcount s1 \<noteq> 2 then False
                    else b ! 0 = CHR ''P'' \<and> (b ! 1 = CHR ''F'' \<or> b ! 1 = CHR ''f''));
          s2 = clear s1;
          s3 = seekg s2 0
      in (result, s3))"

section \<open>Formatted extraction\<close>

text \<open>
  \<^verbatim>\<open>iStream >> magic\<close>: after the sentry, the bytes up to the next white space or the end
  of the stream (which sets \<open>eofbit\<close>). When the sentry fails the string keeps its value.
\<close>

definition extract_string :: "istream \<Rightarrow> string \<Rightarrow> istream \<times> string" where
  "extract_string s str =
     (case sentry False s of
        (False, s') \<Rightarrow> (s', str)
      | (True, s') \<Rightarrow>
          let tok = takeWhile (\<lambda>c. \<not> isspace c) (remaining s') in
          (s'\<lparr>gpos := gpos s' + length tok, eofbit := (length tok = length (remaining s')),
              failbit := (tok = [])\<rparr>, tok))"

definition INT_MAX :: int where
  "INT_MAX = 2147483647"

definition INT_MIN :: int where
  "INT_MIN = - 2147483648"

definition digits_value :: "string \<Rightarrow> int" where
  "digits_value ds = foldl (\<lambda>a d. 10 * a + (of_char d - 48)) 0 ds"

text \<open>
  The decimal field \<^verbatim>\<open>num_get\<close> accumulates for an integer: an optional sign and the
  digits after it. The result is the value (\<open>None\<close> without a digit) and the number of
  bytes consumed.
\<close>

definition scan_int :: "string \<Rightarrow> int option \<times> nat" where
  "scan_int cs =
     (let neg = (case cs of [] \<Rightarrow> False | c # _ \<Rightarrow> c = CHR ''-'');
          signlen = (case cs of [] \<Rightarrow> 0 | c # _ \<Rightarrow> if c = CHR ''-'' \<or> c = CHR ''+'' then 1 else 0);
          ds = takeWhile isdigit (drop signlen cs)
      in (if ds = [] then None else Some (if neg then - digits_value ds else digits_value ds),
          signlen + length ds))"

text \<open>
  \<^verbatim>\<open>iStream >> size.x()\<close> on an \<^verbatim>\<open>int\<close>: a field without a digit stores 0 and sets
  \<open>failbit\<close>; a value outside the range of \<^verbatim>\<open>int\<close> stores the nearest bound and sets
  \<open>failbit\<close>; when the sentry fails the variable keeps its value.
\<close>

definition extract_int :: "istream \<Rightarrow> int \<Rightarrow> istream \<times> int" where
  "extract_int s v =
     (case sentry False s of
        (False, s') \<Rightarrow> (s', v)
      | (True, s') \<Rightarrow>
          let (r, k) = scan_int (remaining s');
              s'' = s'\<lparr>gpos := gpos s' + k, eofbit := (k = length (remaining s'))\<rparr>
          in (case r of
                None \<Rightarrow> (s''\<lparr>failbit := True\<rparr>, 0)
              | Some i \<Rightarrow>
                  if i < INT_MIN then (s''\<lparr>failbit := True\<rparr>, INT_MIN)
                  else if INT_MAX < i then (s''\<lparr>failbit := True\<rparr>, INT_MAX)
                  else (s'', i)))"

section \<open>Floats, and what the loader takes from outside this file\<close>

text \<open>
  A \<^verbatim>\<open>float\<close> is its IEEE 754 binary32 bit pattern: bit 31 the sign, bits 30 to 23 the
  exponent, bits 22 to 0 the fraction. The tests \<^verbatim>\<open>load\<close> makes on the scale are read off
  the bits; the product \<^verbatim>\<open>scale * val\<close> is a parameter (\<open>fmul\<close> below).
\<close>

type_synonym float = "32 word"

definition isfinite :: "float \<Rightarrow> bool" where
  "isfinite f = (drop_bit 23 f AND 0xFF \<noteq> 0xFF)"

definition isnan :: "float \<Rightarrow> bool" where
  "isnan f = (drop_bit 23 f AND 0xFF = 0xFF \<and> f AND 0x7FFFFF \<noteq> 0)"

text \<open>\<^verbatim>\<open>scale == 0\<close>: both zeros compare equal to 0.\<close>

definition is_zero :: "float \<Rightarrow> bool" where
  "is_zero f = (f AND 0x7FFFFFFF = 0)"

text \<open>\<^verbatim>\<open>scale < 0\<close>.\<close>

definition less_zero :: "float \<Rightarrow> bool" where
  "less_zero f = (bit f 31 \<and> \<not> isnan f \<and> \<not> is_zero f)"

text \<open>\<^verbatim>\<open>abs(scale)\<close> (the \<^verbatim>\<open>float\<close> overload of \<^verbatim>\<open>std::abs\<close>) clears the sign bit.\<close>

definition fabs :: "float \<Rightarrow> float" where
  "fabs f = f AND 0x7FFFFFFF"

text \<open>
  Modelled from the spec: \<^verbatim>\<open>swapBytes\<close> (\<^verbatim>\<open>swapByteOrder(float) -> float\<close>) is
  declared outside this file; it reverses the 4 bytes of the value.
\<close>

definition swapBytes :: "float \<Rightarrow> float" where
  "swapBytes f =
     push_bit 24 (f AND 0xFF) OR push_bit 16 (drop_bit 8 f AND 0xFF)
       OR push_bit 8 (drop_bit 16 f AND 0xFF) OR (drop_bit 24 f AND 0xFF)"

text \<open>
  What \<^verbatim>\<open>load\<close> uses and this file does not define:
  \<^item> \<open>isSystemLittleEndian\<close>: the byte order of the host;
  \<^item> \<open>num_get_float\<close>: the conversion behind \<^verbatim>\<open>iStream >> scale\<close>, from the bytes at the
    read position to the value stored, whether the conversion failed, and the number of
    bytes consumed;
  \<^item> \<open>fmul\<close>: the product of two floats;
  \<^item> \<open>channelName\<close>: the name \<^verbatim>\<open>makeNChannels\<close> gives channel \<open>c\<close> of \<open>n\<close>;
  \<^item> \<open>matchesFuzzy\<close>: the fuzzy matcher, from a channel name and the selector to the
    match id, or \<open>None\<close> when it reports no match;
  \<^item> \<open>schedule\<close>: the order in which \<^verbatim>\<open>parallelFor\<close> runs the \<open>n\<close> iterations of a loop;
  \<^item> \<open>indeterminate_x\<close>, \<open>indeterminate_y\<close>, \<open>indeterminate_scale\<close>: what the variables
    \<^verbatim>\<open>size\<close> and \<^verbatim>\<open>scale\<close> hold before line 31 writes them (the source does not
    initialise them).
\<close>

record env =
  isSystemLittleEndian :: bool
  num_get_float :: "string \<Rightarrow> float \<times> bool \<times> nat"
  fmul :: "float \<Rightarrow> float \<Rightarrow> float"
  channelName :: "nat \<Rightarrow> nat \<Rightarrow> string"
  matchesFuzzy :: "string \<Rightarrow> string \<Rightarrow> nat option"
  schedule :: "nat \<Rightarrow> nat list"
  indeterminate_x :: int
  indeterminate_y :: int
  indeterminate_scale :: float

text \<open>
  \<^verbatim>\<open>iStream >> scale\<close>: the sentry, then the conversion of the environment. A conversion
  that consumed every remaining byte met the end of the stream.
\<close>

definition extract_float :: "env \<Rightarrow> istream \<Rightarrow> float \<Rightarrow> istream \<times> float" where
  "extract_float e s v =
     (case sentry False s of
        (False, s') \<Rightarrow> (s', v)
      | (True, s') \<Rightarrow>
          let (f, failed, k0) = num_get_float e (remaining s');
              k = min k0 (length (remaining s'))
          in (s'\<lparr>gpos := gpos s' + k, eofbit := (k = length (remaining s')),
                 failbit := failed\<rparr>, f))"

text \<open>
  The buffer \<^verbatim>\<open>vector<float> data\<close> after \<^verbatim>\<open>read\<close> has filled it with raw bytes: float
  \<open>k\<close> is made of bytes \<open>4k\<close> to \<open>4k+3\<close>, the first byte the least significant one on a
  little-endian host and the most significant one on a big-endian host.
\<close>

definition float_of_bytes :: "bool \<Rightarrow> string \<Rightarrow> float" where
  "float_of_bytes little bs =
     (let b = (\<lambda>i. (of_char (bs ! i) :: float)) in
      if little then b 0 OR push_bit 8 (b 1) OR push_bit 16 (b 2) OR push_bit 24 (b 3)
      else b 3 OR push_bit 8 (b 2) OR push_bit 16 (b 1) OR push_bit 24 (b 0))"

definition floats_of_bytes :: "bool \<Rightarrow> string \<Rightarrow> float list" where
  "floats_of_bytes little bs =
     map (\<lambda>k. float_of_bytes little (take 4 (drop (4 * k) bs))) [0..<length bs div 4]"

section \<open>Channels and errors\<close>

text \<open>
  Modelled from the spec: the class \<^verbatim>\<open>Channel\<close> is declared outside this file. It is a
  named 2D grid of floats of a fixed size (\<open>csize\<close>), addressed by an integer coordinate \<open>(x, y)\<close>.
\<close>

record channel =
  name :: string
  csize :: "int \<times> int"
  grid :: "int \<times> int \<Rightarrow> float"

definition at :: "channel \<Rightarrow> int \<times> int \<Rightarrow> float" where
  "at ch p = grid ch p"

definition at_update :: "channel \<Rightarrow> int \<times> int \<Rightarrow> float \<Rightarrow> channel" where
  "at_update ch p v = ch\<lparr>grid := (grid ch)(p := v)\<rparr>"

text \<open>
  Modelled from the spec: \<^verbatim>\<open>makeNChannels\<close> is defined outside this file. It allocates
  \<open>count\<close> zero-initialised grids of the given size with deterministic default names.
\<close>

definition makeNChannels :: "env \<Rightarrow> nat \<Rightarrow> int \<times> int \<Rightarrow> channel list" where
  "makeNChannels e numChannels sz =
     map (\<lambda>c. \<lparr>name = channelName e numChannels c, csize = sz, grid = (\<lambda>_. 0)\<rparr>) [0..<numChannels]"

record ImageData =
  channels :: "channel list"
  layers :: "string list"

text \<open>
  The ways \<^verbatim>\<open>load\<close> ends without a result. The first four are the
  \<^verbatim>\<open>invalid_argument\<close> exceptions of lines 41, 45, 55 and 69, with the values their
  messages carry. \<open>Length_error\<close> is the exception of the constructor of
  \<^verbatim>\<open>vector<float>\<close> (line 66) for a size above its maximum. \<open>Undefined_read\<close> stands for
  the undefined behaviour of line 79 when the index is outside \<open>data\<close> or the \<^verbatim>\<open>int\<close>
  addition overflows.
\<close>

datatype error =
    Invalid_magic string
  | Invalid_scale float
  | Zero_pixels
  | Not_sufficient_bytes int int
  | Length_error
  | Undefined_read

text \<open>The two kinds of error of the specification.\<close>

fun InvalidFormat :: "error \<Rightarrow> bool" where
  "InvalidFormat (Invalid_magic m) = True"
| "InvalidFormat (Invalid_scale f) = True"
| "InvalidFormat Zero_pixels = True"
| "InvalidFormat e = False"


section \<open>The loader\<close>

text \<open>Lines 33 to 42: the channel count of a magic string, \<open>None\<close> where line 41 throws.\<close>

definition numChannels_of :: "string \<Rightarrow> nat option" where
  "numChannels_of magic =
     (if magic = ''Pf'' then Some 1
      else if magic = ''PF'' then Some 3
      else if magic = ''PF4'' then Some 4
      else None)"

text \<open>
  Line 31, \<^verbatim>\<open>iStream >> magic >> size.x() >> size.y() >> scale\<close>: the stream after the
  four extractions and the values of the four variables.
\<close>

definition parse_header :: "env \<Rightarrow> istream \<Rightarrow> istream \<times> string \<times> int \<times> int \<times> float" where
  "parse_header e iStream =
     (let (s1, magic) = extract_string iStream [];
          (s2, size_x) = extract_int s1 (indeterminate_x e);
          (s3, size_y) = extract_int s2 (indeterminate_y e);
          (s4, scale) = extract_float e s3 (indeterminate_scale e)
      in (s4, magic, size_x, size_y, scale))"

text \<open>
  Line 63, \<^verbatim>\<open>while (iStream.get(c) && c != '\r' && c != '\n');\<close>. Each turn consumes a
  byte, so the loop ends.
\<close>

function skip_newline :: "istream \<Rightarrow> istream" where
  "skip_newline s =
     (case get s of
        (s', None) \<Rightarrow> s'
      | (s', Some c) \<Rightarrow> if c \<noteq> CHR 0x0D \<and> c \<noteq> CHR 0x0A then skip_newline s' else s')"
  by pat_completeness auto
termination
proof (relation "measure (\<lambda>s. length (content s) - gpos s)")
  show "wf (measure (\<lambda>s. length (content s) - gpos s))"
    by simp
next
  fix s s' :: istream and y c
  assume "(s', y) = get s" and "y = Some c"
  then have g: "get s = (s', Some c)"
    by simp
  then have "remaining s \<noteq> [] \<and> gpos s' = gpos s + 1 \<and> content s' = content s"
    by (auto simp: get_def sentry_def remaining_def split: if_splits list.splits)
  then have "gpos s < length (content s) \<and> gpos s' = gpos s + 1 \<and> content s' = content s"
    by (simp add: remaining_def)
  then show "(s', s) \<in> measure (\<lambda>s. length (content s) - gpos s)"
    by auto
qed

text \<open>
  The maximal size of a \<^verbatim>\<open>vector<float>\<close> where \<^verbatim>\<open>ptrdiff_t\<close> has 64 bits. A
  \<^verbatim>\<open>DenseIndex\<close> below 0, converted to \<^verbatim>\<open>size_t\<close>, is above it. The sizes are
  integers without a bound here: the products of lines 53 and 58 are below \<open>2^64\<close>, and one
  that does not fit a \<^verbatim>\<open>DenseIndex\<close> is above the maximal size as well.
\<close>

definition max_size :: int where
  "max_size = 2 ^ 61 - 1"

text \<open>
  The conversion of a \<^verbatim>\<open>DenseIndex\<close> (64 bits) to \<^verbatim>\<open>int\<close> (32 bits) at line 77 keeps
  the low 32 bits, read as two's complement.
\<close>

definition narrow_int :: "int \<Rightarrow> int" where
  "narrow_int i = sint (word_of_int i :: 32 word)"

text \<open>
  Line 79, \<^verbatim>\<open>data[baseIdx + c]\<close>: the sum is an \<^verbatim>\<open>int\<close>, and the element exists when the
  sum is an index of \<open>data\<close>.
\<close>

definition data_at :: "float list \<Rightarrow> int \<Rightarrow> error + float" where
  "data_at data i =
     (if 0 \<le> i \<and> i \<le> INT_MAX \<and> nat i < length data then Inr (data ! nat i)
      else Inl Undefined_read)"

text \<open>A loop whose body can fail: the first failure ends it.\<close>

fun for_each :: "'i list \<Rightarrow> ('i \<Rightarrow> 's \<Rightarrow> error + 's) \<Rightarrow> 's \<Rightarrow> error + 's" where
  "for_each [] body s = Inr s"
| "for_each (i # is) body s =
     (case body i s of Inl err \<Rightarrow> Inl err | Inr s' \<Rightarrow> for_each is body s')"

text \<open>
  Modelled from the spec: \<^verbatim>\<open>parallelFor(start, end, rowFn)\<close> is defined outside this
  file. It invokes \<open>rowFn(i)\<close> for every \<open>i\<close> from \<open>start\<close> up to \<open>end\<close>, in no fixed order;
  the order is the schedule of the environment.
\<close>

definition parallelFor ::
  "env \<Rightarrow> int \<Rightarrow> int \<Rightarrow> (int \<Rightarrow> 's \<Rightarrow> error + 's) \<Rightarrow> 's \<Rightarrow> error + 's" where
  "parallelFor e start end body s =
     for_each (map (\<lambda>k. start + int k) (schedule e (nat (end - start)))) body s"

text \<open>
  Lines 79 to 88: the body of the loop over the channels, for the channel \<open>c\<close> of the pixel
  \<open>(x, y)\<close>.
\<close>

definition pixel_body ::
  "env \<Rightarrow> float list \<Rightarrow> bool \<Rightarrow> float \<Rightarrow> int \<Rightarrow> int \<Rightarrow> int \<Rightarrow> int \<Rightarrow> nat
     \<Rightarrow> channel list \<Rightarrow> error + channel list" where
  "pixel_body e data shallSwapBytes scale size_y y x baseIdx c chans =
     (case data_at data (baseIdx + int c) of
        Inl err \<Rightarrow> Inl err
      | Inr v \<Rightarrow>
          let val = (if shallSwapBytes then swapBytes v else v) in
          Inr (chans[c := at_update (chans ! c) (x, size_y - y - 1) (fmul e scale val)]))"

text \<open>
  Lines 76 to 90: the body of the parallel loop, for the row \<open>y\<close>, with the loop over the
  columns and, inside it, the loop over the channels.
\<close>

definition row_body ::
  "env \<Rightarrow> float list \<Rightarrow> bool \<Rightarrow> float \<Rightarrow> int \<times> int \<Rightarrow> nat \<Rightarrow> int
     \<Rightarrow> channel list \<Rightarrow> error + channel list" where
  "row_body e data shallSwapBytes scale sz numChannels y chans =
     for_each (map int [0..<nat (fst sz)])
       (\<lambda>x. let baseIdx = narrow_int ((y * fst sz + x) * int numChannels) in
            for_each [0..<numChannels]
              (pixel_body e data shallSwapBytes scale (snd sz) y x baseIdx))
       chans"

text \<open>
  Lines 27 to 91 of \<^verbatim>\<open>PfmImageLoader::load\<close>: the channels as the parallel loop leaves
  them, or the error, and the stream as it is then.
\<close>

definition decode :: "env \<Rightarrow> istream \<Rightarrow> (error + channel list) \<times> istream" where
  "decode e iStream =
     (case parse_header e iStream of (s4, magic, size_x, size_y, scale0) \<Rightarrow>
      (case numChannels_of magic of
         None \<Rightarrow> (Inl (Invalid_magic magic), s4)
       | Some numChannels \<Rightarrow>
           if \<not> isfinite scale0 \<or> is_zero scale0 then (Inl (Invalid_scale scale0), s4)
           else
             let isPfmLittleEndian = less_zero scale0;
                 scale = fabs scale0;
                 chans = makeNChannels e numChannels (size_x, size_y);
                 numPixels = size_x * size_y
             in
             if numPixels = 0 then (Inl Zero_pixels, s4)
             else
               let numFloats = numPixels * int numChannels;
                   numBytes = numFloats * 4;
                   s5 = skip_newline s4
               in
               if numFloats < 0 \<or> max_size < numFloats then (Inl Length_error, s5)
               else
                 (case read s5 (nat numBytes) of (s6, bytes) \<Rightarrow>
                  if int (gcount s6) < numBytes
                  then (Inl (Not_sufficient_bytes (int (gcount s6)) numBytes), s6)
                  else
                    let data = floats_of_bytes (isSystemLittleEndian e) bytes;
                        shallSwapBytes = (isSystemLittleEndian e \<noteq> isPfmLittleEndian)
                    in
                    (parallelFor e 0 size_y
                       (row_body e data shallSwapBytes scale (size_x, size_y) numChannels)
                       chans,
                     s6))))"

text \<open>
  \<^verbatim>\<open>PfmImageLoader::load\<close>: lines 93 to 115 after \<open>decode\<close>. The result is the image and
  the value written to \<^verbatim>\<open>hasPremultipliedAlpha\<close>. \<^verbatim>\<open>std::sort\<close> on the pairs
  \<open>(matchId, i)\<close> orders them by \<open>matchId\<close>, then by \<open>i\<close>; the pairs are distinct.
\<close>

definition load :: "env \<Rightarrow> istream \<Rightarrow> string \<Rightarrow> (error + ImageData \<times> bool) \<times> istream" where
  "load e iStream channelSelector =
     (case decode e iStream of
        (Inl err, s') \<Rightarrow> (Inl err, s')
      | (Inr chans, s') \<Rightarrow>
          let matches0 =
                concat (map (\<lambda>i. case matchesFuzzy e (name (chans ! i)) channelSelector of
                                   Some matchId \<Rightarrow> [(matchId, i)]
                                 | None \<Rightarrow> [])
                          [0..<length chans]);
              matches = (if channelSelector \<noteq> [] then sort matches0 else matches0);
              result = \<lparr>channels = map (\<lambda>m. chans ! snd m) matches, layers = [[]]\<rparr>
          in (Inr (result, False), s'))"

section \<open>Names for the parts of a run\<close>

text \<open>The stream and the four variables after line 31.\<close>

definition after_header :: "env \<Rightarrow> istream \<Rightarrow> istream" where
  "after_header e s = fst (parse_header e s)"

definition parsed_magic :: "env \<Rightarrow> istream \<Rightarrow> string" where
  "parsed_magic e s = fst (snd (parse_header e s))"

definition parsed_width :: "env \<Rightarrow> istream \<Rightarrow> int" where
  "parsed_width e s = fst (snd (snd (parse_header e s)))"

definition parsed_height :: "env \<Rightarrow> istream \<Rightarrow> int" where
  "parsed_height e s = fst (snd (snd (snd (parse_header e s))))"

definition parsed_scale :: "env \<Rightarrow> istream \<Rightarrow> float" where
  "parsed_scale e s = snd (snd (snd (snd (parse_header e s))))"

text \<open>
  The checks of lines 34 to 56 and of the constructor of line 66 all pass: the magic string
  names \<open>n\<close> channels, the scale is finite and not zero, there is a pixel, and the number
  of floats is a size a vector can have.
\<close>

definition checks_pass :: "env \<Rightarrow> istream \<Rightarrow> nat \<Rightarrow> bool" where
  "checks_pass e s n =
     (numChannels_of (parsed_magic e s) = Some n
      \<and> isfinite (parsed_scale e s) \<and> \<not> is_zero (parsed_scale e s)
      \<and> parsed_width e s * parsed_height e s \<noteq> 0
      \<and> 0 \<le> parsed_width e s * parsed_height e s * int n
      \<and> parsed_width e s * parsed_height e s * int n \<le> max_size)"

text \<open>
  A header the loader accepts for an image that has a size: the checks pass, and the
  width and the height are positive.
\<close>

definition header_accepted :: "env \<Rightarrow> istream \<Rightarrow> nat \<Rightarrow> bool" where
  "header_accepted e s n =
     (numChannels_of (parsed_magic e s) = Some n
      \<and> isfinite (parsed_scale e s) \<and> \<not> is_zero (parsed_scale e s)
      \<and> 0 < parsed_width e s \<and> 0 < parsed_height e s
      \<and> parsed_width e s * parsed_height e s * int n \<le> max_size)"

text \<open>The stream after the loop of line 63, and the bytes line 67 reads from it.\<close>

definition payload_stream :: "env \<Rightarrow> istream \<Rightarrow> istream" where
  "payload_stream e s = skip_newline (after_header e s)"

definition payload :: "env \<Rightarrow> istream \<Rightarrow> nat \<Rightarrow> string" where
  "payload e s n =
     snd (read (payload_stream e s) (nat (parsed_width e s * parsed_height e s * int n * 4)))"

text \<open>The buffer \<open>data\<close> of line 66 after line 67.\<close>

definition sample_buffer :: "env \<Rightarrow> istream \<Rightarrow> nat \<Rightarrow> float list" where
  "sample_buffer e s n = floats_of_bytes (isSystemLittleEndian e) (payload e s n)"

text \<open>Line 73.\<close>

definition shallSwapBytes :: "env \<Rightarrow> float \<Rightarrow> bool" where
  "shallSwapBytes e scale = (isSystemLittleEndian e \<noteq> less_zero scale)"

text \<open>
  The contract of \<^verbatim>\<open>parallelFor\<close>: each of the \<open>n\<close> iterations runs exactly once.
\<close>

definition valid_schedule :: "env \<Rightarrow> nat \<Rightarrow> bool" where
  "valid_schedule e n = (distinct (schedule e n) \<and> set (schedule e n) = {0..<n})"

section \<open>The parallel loop as a list of writes\<close>

text \<open>
  The proofs below flatten the three loops of lines 75 to 91 into the list of the writes
  they make. \<open>index_ok\<close> says that line 79 reads inside \<open>data\<close> for the sample \<open>c\<close> of
  the pixel \<open>(x, y)\<close>, and \<open>decoded_value\<close> is what line 88 then stores.
\<close>

definition index_ok :: "float list \<Rightarrow> int \<Rightarrow> nat \<Rightarrow> int \<Rightarrow> int \<Rightarrow> nat \<Rightarrow> bool" where
  "index_ok data w n y x c =
     (let i = narrow_int ((y * w + x) * int n) + int c
      in 0 \<le> i \<and> i \<le> INT_MAX \<and> nat i < length data)"

definition decoded_value ::
  "env \<Rightarrow> float list \<Rightarrow> bool \<Rightarrow> float \<Rightarrow> int \<Rightarrow> nat \<Rightarrow> int \<Rightarrow> int \<Rightarrow> nat \<Rightarrow> float" where
  "decoded_value e data sw scale w n y x c =
     (let v = data ! nat (narrow_int ((y * w + x) * int n) + int c)
      in fmul e scale (if sw then swapBytes v else v))"

text \<open>One write: the channel, the coordinate and the value.\<close>

definition cell_write :: "nat \<times> (int \<times> int) \<times> float \<Rightarrow> channel list \<Rightarrow> channel list" where
  "cell_write = (\<lambda>(c, p, v) chans. chans[c := at_update (chans ! c) p v])"

definition row_writes ::
  "env \<Rightarrow> float list \<Rightarrow> bool \<Rightarrow> float \<Rightarrow> int \<times> int \<Rightarrow> nat \<Rightarrow> int
     \<Rightarrow> (nat \<times> (int \<times> int) \<times> float) list" where
  "row_writes e data sw scale sz n y =
     concat (map (\<lambda>x. map (\<lambda>c. (c, (x, snd sz - y - 1), decoded_value e data sw scale (fst sz) n y x c))
                        [0..<n])
               (map int [0..<nat (fst sz)]))"

definition all_writes ::
  "env \<Rightarrow> float list \<Rightarrow> bool \<Rightarrow> float \<Rightarrow> int \<times> int \<Rightarrow> nat \<Rightarrow> int list
     \<Rightarrow> (nat \<times> (int \<times> int) \<times> float) list" where
  "all_writes e data sw scale sz n ys = concat (map (row_writes e data sw scale sz n) ys)"

text \<open>Line 68 does not throw: \<open>read\<close> delivered every byte asked for.\<close>

definition payload_complete :: "env \<Rightarrow> istream \<Rightarrow> nat \<Rightarrow> bool" where
  "payload_complete e s n =
     (parsed_width e s * parsed_height e s * int n * 4
        \<le> int (gcount (fst (read (payload_stream e s)
                 (nat (parsed_width e s * parsed_height e s * int n * 4))))))"

text \<open>Every read of line 79 in the rows the schedule runs is inside \<open>data\<close>.\<close>

definition rows_ok :: "env \<Rightarrow> istream \<Rightarrow> nat \<Rightarrow> bool" where
  "rows_ok e s n =
     (\<forall>y\<in>set (map int (schedule e (nat (parsed_height e s)))).
        \<forall>x\<in>set (map int [0..<nat (parsed_width e s)]). \<forall>c\<in>set [0..<n].
          index_ok (sample_buffer e s n) (parsed_width e s) n y x c)"

text \<open>What a successful run of the parallel loop leaves in the channels.\<close>

definition decoded_channels :: "env \<Rightarrow> istream \<Rightarrow> nat \<Rightarrow> channel list" where
  "decoded_channels e s n =
     fold cell_write
       (all_writes e (sample_buffer e s n) (shallSwapBytes e (parsed_scale e s))
          (fabs (parsed_scale e s)) (parsed_width e s, parsed_height e s) n
          (map int (schedule e (nat (parsed_height e s)))))
       (makeNChannels e n (parsed_width e s, parsed_height e s))"

section \<open>Example inputs\<close>

text \<open>
  An environment for the examples: a little-endian host; a conversion that knows the
  literals \<open>-1.0\<close>, \<open>-2.5\<close>, \<open>1\<close> and \<open>0\<close>; a product that is right for the factor 1.0 and for
  2.5 times 2.0; the channel names L and R, G, B, A; a matcher for selectors made of
  one-letter channel names, the match id of a name being its position in the selector;
  and a schedule that runs the last row first.
\<close>

fun position :: "char \<Rightarrow> string \<Rightarrow> nat option" where
  "position c [] = None"
| "position c (d # ds) = (if c = d then Some 0 else map_option Suc (position c ds))"

definition example_env :: env where
  "example_env =
     \<lparr>isSystemLittleEndian = True,
      num_get_float = (\<lambda>cs. if take 4 cs = ''-1.0'' then (0xBF800000, False, 4)
                            else if take 4 cs = ''-2.5'' then (0xC0200000, False, 4)
                            else if take 1 cs = ''1'' then (0x3F800000, False, 1)
                            else if take 1 cs = ''0'' then (0, False, 1)
                            else (0, True, 0)),
      fmul = (\<lambda>a b. if a = 0x3F800000 then b
                     else if a = 0x40200000 \<and> b = 0x40000000 then 0x40A00000
                     else 0),
      channelName = (\<lambda>n c. if n = 1 then ''L'' else [''R'', ''G'', ''B'', ''A''] ! c),
      matchesFuzzy = (\<lambda>nm sel. if sel = [] then Some 0
                                else (case nm of [c] \<Rightarrow> position c sel | _ \<Rightarrow> None)),
      schedule = (\<lambda>n. rev [0..<n]),
      indeterminate_x = 7, indeterminate_y = 7, indeterminate_scale = 7\<rparr>"

text \<open>The same on a big-endian host.\<close>

definition example_env_be :: env where
  "example_env_be = example_env\<lparr>isSystemLittleEndian := False\<rparr>"

text \<open>A fresh stream over the given bytes.\<close>

definition stream_of :: "string \<Rightarrow> istream" where
  "stream_of bs =
     \<lparr>content = bs, gpos = 0, eofbit = False, failbit = False, badbit = False, gcount = 0\<rparr>"

text \<open>
  The 2 by 2 image of the specification: one channel, the floats 1, 2, 3, 4 in file order,
  little-endian.
\<close>

definition flip_payload :: string where
  "flip_payload =
     [CHR 0x00, CHR 0x00, CHR 0x80, CHR 0x3F, CHR 0x00, CHR 0x00, CHR 0x00, CHR 0x40,
      CHR 0x00, CHR 0x00, CHR 0x40, CHR 0x40, CHR 0x00, CHR 0x00, CHR 0x80, CHR 0x40]"

definition flip_stream :: istream where
  "flip_stream = stream_of (''Pf\<newline>2 2\<newline>-1.0\<newline>'' @ flip_payload)"

text \<open>A stream whose read position is 2, and a stream that has met its end.\<close>

definition offset_stream :: istream where
  "offset_stream = (stream_of ''xxPF'')\<lparr>gpos := 2\<rparr>"

definition eof_stream :: istream where
  "eof_stream = (stream_of ''PF'')\<lparr>eofbit := True\<rparr>"

text \<open>A stream whose first token is not a magic string.\<close>

definition pfx_stream :: istream where
  "pfx_stream = stream_of ''PFX\<newline>1 1\<newline>1\<newline>abcd''"

text \<open>A second stream whose first token only starts like a magic string.\<close>

definition pfoo_stream :: istream where
  "pfoo_stream = stream_of ''Pfoo\<newline>1 1\<newline>1\<newline>abcd''"

text \<open>Headers with a width of 0 and with a width of -1.\<close>

definition zero_width_stream :: istream where
  "zero_width_stream = stream_of ''PF\<newline>0 5\<newline>1\<newline>abcd''"

definition negative_width_stream :: istream where
  "negative_width_stream = stream_of ''PF\<newline>-1 1\<newline>1\<newline>abcd''"


text \<open>
  The 2 by 2 image with bytes between the scale and the end of the header, which is a
  carriage return here.
\<close>

definition padded_stream :: istream where
  "padded_stream = stream_of (''Pf\<newline>2 2\<newline>-1.0 junk'' @ [CHR 0x0D] @ flip_payload)"

text \<open>
  An image of 536870913 by 1 pixels with 4 channels: 2147483652 floats, the payload all
  zero bytes.
\<close>

definition huge_stream :: istream where
  "huge_stream =
     stream_of (''PF4\<newline>536870913 1\<newline>-1.0\<newline>'' @ replicate 8589934608 (CHR 0x00))"

text \<open>
  A 1 by 1 image with three channels holding 1, 2 and 3, and a 1 by 1 image with one
  channel holding 2 and the scale -2.5; both little-endian.
\<close>

definition rgb_stream :: istream where
  "rgb_stream =
     stream_of (''PF\<newline>1 1\<newline>-1.0\<newline>'' @
       [CHR 0x00, CHR 0x00, CHR 0x80, CHR 0x3F, CHR 0x00, CHR 0x00, CHR 0x00, CHR 0x40,
        CHR 0x00, CHR 0x00, CHR 0x40, CHR 0x40])"

definition scaled_stream :: istream where
  "scaled_stream =
     stream_of (''Pf\<newline>1 1\<newline>-2.5\<newline>'' @ [CHR 0x00, CHR 0x00, CHR 0x00, CHR 0x40])"

text \<open>A header with the scale 0.\<close>

definition zero_scale_stream :: istream where
  "zero_scale_stream = stream_of ''Pf\<newline>1 1\<newline>0\<newline>abcd''"

section \<open>Lemmas\<close>

lemma decode_unfold:
  "decode e s =
     (case numChannels_of (parsed_magic e s) of
        None \<Rightarrow> (Inl (Invalid_magic (parsed_magic e s)), after_header e s)
      | Some n \<Rightarrow>
          if \<not> isfinite (parsed_scale e s) \<or> is_zero (parsed_scale e s)
          then (Inl (Invalid_scale (parsed_scale e s)), after_header e s)
          else if parsed_width e s * parsed_height e s = 0
          then (Inl Zero_pixels, after_header e s)
          else if parsed_width e s * parsed_height e s * int n < 0
                  \<or> max_size < parsed_width e s * parsed_height e s * int n
          then (Inl Length_error, payload_stream e s)
          else
            let numBytes = parsed_width e s * parsed_height e s * int n * 4;
                s6 = fst (read (payload_stream e s) (nat numBytes))
            in
            if int (gcount s6) < numBytes
            then (Inl (Not_sufficient_bytes (int (gcount s6)) numBytes), s6)
            else
              (parallelFor e 0 (parsed_height e s)
                 (row_body e (sample_buffer e s n) (shallSwapBytes e (parsed_scale e s))
                    (fabs (parsed_scale e s)) (parsed_width e s, parsed_height e s) n)
                 (makeNChannels e n (parsed_width e s, parsed_height e s)),
               s6))"
proof -
  obtain s4 magic w h sc where ph: "parse_header e s = (s4, magic, w, h, sc)"
    by (cases "parse_header e s") auto
  show ?thesis
    unfolding decode_def after_header_def parsed_magic_def parsed_width_def
      parsed_height_def parsed_scale_def payload_stream_def payload_def sample_buffer_def
      shallSwapBytes_def ph
    by (simp add: Let_def case_prod_beta split: option.split)
qed

lemma header_accepted_checks: "header_accepted e s n \<Longrightarrow> checks_pass e s n"
  by (auto simp: header_accepted_def checks_pass_def)

lemma for_each_ok:
  assumes "\<And>i t. i \<in> set js \<Longrightarrow> body i t = (if ok i then Inr (g i t) else Inl err)"
  shows "for_each js body s = (if \<forall>i\<in>set js. ok i then Inr (fold g js s) else Inl err)"
  using assms
proof (induction js arbitrary: s)
  case Nil
  then show ?case by simp
next
  case (Cons j js)
  have b: "body j s = (if ok j then Inr (g j s) else Inl err)"
    using Cons.prems by simp
  have ih: "for_each js body t = (if \<forall>i\<in>set js. ok i then Inr (fold g js t) else Inl err)" for t
    using Cons.IH Cons.prems by simp
  show ?case
    by (simp add: b ih)
qed

lemma fold_concat: "fold f (concat xss) s = fold (\<lambda>xs. fold f xs) xss s"
  by (induction xss arbitrary: s) simp_all

lemma pixel_body_eq:
  "pixel_body e data sw scale h y x (narrow_int ((y * w + x) * int n)) c chans =
     (if index_ok data w n y x c
      then Inr (cell_write (c, (x, h - y - 1), decoded_value e data sw scale w n y x c) chans)
      else Inl Undefined_read)"
  by (simp add: pixel_body_def data_at_def index_ok_def decoded_value_def cell_write_def Let_def)

lemma row_body_eq:
  "row_body e data sw scale (w, h) n y chans =
     (if \<forall>x\<in>set (map int [0..<nat w]). \<forall>c\<in>set [0..<n]. index_ok data w n y x c
      then Inr (fold cell_write (row_writes e data sw scale (w, h) n y) chans)
      else Inl Undefined_read)"
proof -
  have inner: "for_each [0..<n] (pixel_body e data sw scale h y x (narrow_int ((y * w + x) * int n))) t =
      (if \<forall>c\<in>set [0..<n]. index_ok data w n y x c
       then Inr (fold cell_write
                  (map (\<lambda>c. (c, (x, h - y - 1), decoded_value e data sw scale w n y x c)) [0..<n]) t)
       else Inl Undefined_read)" for x t
    by (subst for_each_ok [where ok = "\<lambda>c. index_ok data w n y x c"
          and g = "\<lambda>c. cell_write (c, (x, h - y - 1), decoded_value e data sw scale w n y x c)"
          and err = Undefined_read])
      (simp_all add: pixel_body_eq fold_map comp_def)
  show ?thesis
    unfolding row_body_def row_writes_def
    by (subst for_each_ok [where ok = "\<lambda>x. \<forall>c\<in>set [0..<n]. index_ok data w n y x c"
          and g = "\<lambda>x. fold cell_write
                  (map (\<lambda>c. (c, (x, h - y - 1), decoded_value e data sw scale w n y x c)) [0..<n])"
          and err = Undefined_read])
      (simp_all add: inner Let_def fold_concat fold_map comp_def)
qed

lemma parallelFor_eq:
  "parallelFor e 0 h (row_body e data sw scale (w, h) n) chans =
     (if \<forall>y\<in>set (map int (schedule e (nat h))). \<forall>x\<in>set (map int [0..<nat w]).
           \<forall>c\<in>set [0..<n]. index_ok data w n y x c
      then Inr (fold cell_write (all_writes e data sw scale (w, h) n (map int (schedule e (nat h)))) chans)
      else Inl Undefined_read)"
  unfolding parallelFor_def all_writes_def
  by (subst for_each_ok [where ok = "\<lambda>y. \<forall>x\<in>set (map int [0..<nat w]). \<forall>c\<in>set [0..<n]. index_ok data w n y x c"
        and g = "\<lambda>y. fold cell_write (row_writes e data sw scale (w, h) n y)"
        and err = Undefined_read])
    (simp_all add: row_body_eq fold_concat fold_map comp_def)

lemma length_cell_write [simp]: "length (cell_write w chans) = length chans"
  by (cases w) (simp add: cell_write_def)

lemma length_fold_cell_write [simp]: "length (fold cell_write ws chans) = length chans"
  by (induction ws arbitrary: chans) simp_all

lemma cell_write_nth:
  "c < length chans \<Longrightarrow>
     name (cell_write (c0, p0, v0) chans ! c) = name (chans ! c)
     \<and> csize (cell_write (c0, p0, v0) chans ! c) = csize (chans ! c)
     \<and> grid (cell_write (c0, p0, v0) chans ! c) p =
         (if c = c0 \<and> p = p0 then v0 else grid (chans ! c) p)"
  by (cases "c = c0") (simp_all add: cell_write_def at_update_def)

lemma fold_cell_write_nth:
  assumes "\<And>c p v. (c, p, v) \<in> set ws \<Longrightarrow> v = F c p" and "c < length chans"
  shows "name (fold cell_write ws chans ! c) = name (chans ! c)
     \<and> csize (fold cell_write ws chans ! c) = csize (chans ! c)
     \<and> grid (fold cell_write ws chans ! c) p =
         (if \<exists>v. (c, p, v) \<in> set ws then F c p else grid (chans ! c) p)"
  using assms
proof (induction ws arbitrary: chans)
  case Nil
  then show ?case by simp
next
  case (Cons w ws)
  obtain c0 p0 v0 where w: "w = (c0, p0, v0)"
    by (cases w) auto
  have v0: "v0 = F c0 p0"
    using Cons.prems(1) [of c0 p0 v0] by (simp add: w)
  have len: "c < length (cell_write w chans)"
    using Cons.prems(2) by simp
  have ih: "name (fold cell_write ws (cell_write w chans) ! c) = name (cell_write w chans ! c)
     \<and> csize (fold cell_write ws (cell_write w chans) ! c) = csize (cell_write w chans ! c)
     \<and> grid (fold cell_write ws (cell_write w chans) ! c) p =
         (if \<exists>v. (c, p, v) \<in> set ws then F c p else grid (cell_write w chans ! c) p)"
    using Cons.IH [OF _ len] Cons.prems(1) by simp
  have cw: "name (cell_write w chans ! c) = name (chans ! c)
     \<and> csize (cell_write w chans ! c) = csize (chans ! c)
     \<and> grid (cell_write w chans ! c) p = (if c = c0 \<and> p = p0 then v0 else grid (chans ! c) p)"
    unfolding w using cell_write_nth [OF Cons.prems(2)] by simp
  show ?case
    using ih cw v0 by (auto simp: w)
qed

lemma fold_cell_write_cong:
  assumes "\<And>c p v. (c, p, v) \<in> set ws \<Longrightarrow> v = F c p"
    and "set ws' = set ws"
  shows "fold cell_write ws' chans = fold cell_write ws chans"
proof (rule nth_equalityI)
  show "length (fold cell_write ws' chans) = length (fold cell_write ws chans)"
    by simp
next
  fix c
  assume "c < length (fold cell_write ws' chans)"
  then have c: "c < length chans"
    by simp
  have F': "\<And>c p v. (c, p, v) \<in> set ws' \<Longrightarrow> v = F c p"
    using assms by simp
  show "fold cell_write ws' chans ! c = fold cell_write ws chans ! c"
  proof (rule channel.equality)
    show "grid (fold cell_write ws' chans ! c) = grid (fold cell_write ws chans ! c)"
    proof
      fix p
      show "grid (fold cell_write ws' chans ! c) p = grid (fold cell_write ws chans ! c) p"
        using fold_cell_write_nth [of ws' F c chans p, OF F' c]
          fold_cell_write_nth [of ws F c chans p, OF assms(1) c] assms(2)
        by simp
    qed
  qed (use fold_cell_write_nth [of ws' F c chans, OF F' c]
        fold_cell_write_nth [of ws F c chans, OF assms(1) c] in simp_all)
qed

lemma narrow_int_eq: "narrow_int i = signed_take_bit 31 i"
  by (simp add: narrow_int_def sint_sbintrunc')

lemma narrow_int_id: "- 2147483648 \<le> i \<Longrightarrow> i < 2147483648 \<Longrightarrow> narrow_int i = i"
  by (simp add: narrow_int_eq signed_take_bit_int_eq_self)

lemma narrow_int_wrap: "narrow_int 2147483648 = - 2147483648"
  by (simp add: narrow_int_eq)

lemma flat_index_bound:
  fixes w h x y :: int
  assumes "0 \<le> y" "y < h" "0 \<le> x" "x < w" "c < n"
  shows "0 \<le> (y * w + x) * int n + int c \<and> (y * w + x) * int n + int c < w * h * int n"
proof -
  have w: "0 < w"
    using assms by linarith
  have "y * w \<le> (h - 1) * w"
    using assms w by (intro mult_right_mono) auto
  then have "y * w + x + 1 \<le> h * w"
    using assms by (simp add: algebra_simps)
  then have "(y * w + x + 1) * int n \<le> h * w * int n"
    by (intro mult_right_mono) auto
  then have "(y * w + x) * int n + int n \<le> w * h * int n"
    by (simp add: algebra_simps)
  moreover have "0 \<le> y * w + x"
    using assms w by simp
  then have "0 \<le> (y * w + x) * int n"
    by simp
  ultimately show ?thesis
    using assms by linarith
qed

lemma index_ok_small:
  fixes w h x y :: int
  assumes "0 \<le> y" "y < h" "0 \<le> x" "x < w" "c < n"
    and "w * h * int n \<le> 2147483648" and "length data = nat (w * h * int n)"
  shows "index_ok data w n y x c"
    and "narrow_int ((y * w + x) * int n) = (y * w + x) * int n"
proof -
  have b: "0 \<le> (y * w + x) * int n + int c \<and> (y * w + x) * int n + int c < w * h * int n"
    using flat_index_bound [OF assms(1-5)] .
  have w: "0 < w"
    using assms by linarith
  have "0 \<le> y * w + x"
    using assms w by simp
  then have nn: "0 \<le> (y * w + x) * int n"
    by simp
  show n: "narrow_int ((y * w + x) * int n) = (y * w + x) * int n"
    using b nn assms(6) by (intro narrow_int_id) linarith+
  show "index_ok data w n y x c"
    using b assms(6,7) by (simp add: index_ok_def n Let_def INT_MAX_def)
qed

lemma index_ok_overflow:
  fixes w h :: int
  assumes "0 < w" "0 < h" "0 < n" and "2147483648 < w * h * int n"
  shows "\<exists>y x c. 0 \<le> y \<and> y < h \<and> 0 \<le> x \<and> x < w \<and> c < n \<and> \<not> index_ok data w n y x c"
proof -
  define p :: int where "p = 2147483648 div int n"
  define c :: nat where "c = nat (2147483648 mod int n)"
  define y where "y = p div w"
  define x where "x = p mod w"
  have pc: "p * int n + int c = 2147483648"
    using assms(3) by (simp add: p_def c_def)
  have c: "c < n"
    using assms(3) by (simp add: c_def nat_less_iff)
  have p0: "0 \<le> p"
    using assms(3) by (simp add: p_def pos_imp_zdiv_nonneg_iff)
  have yx: "y * w + x = p"
    by (simp add: y_def x_def)
  have x: "0 \<le> x \<and> x < w"
    using assms(1) by (simp add: x_def)
  have y0: "0 \<le> y"
    using assms(1) p0 by (simp add: y_def pos_imp_zdiv_nonneg_iff)
  have "p * int n < w * h * int n"
    using pc assms(4) by linarith
  then have pwh: "p < w * h"
    using assms(3) by simp
  have yh: "y < h"
  proof (rule ccontr)
    assume "\<not> y < h"
    then have "h * w \<le> y * w"
      using assms(1) by (intro mult_right_mono) auto
    then have "w * h \<le> y * w"
      by (simp only: mult.commute)
    then show False
      using yx x pwh by linarith
  qed
  have "\<not> index_ok data w n y x c"
  proof (cases "c = 0")
    case True
    then have "(y * w + x) * int n = 2147483648"
      using pc yx by simp
    then show ?thesis
      by (simp add: index_ok_def True narrow_int_wrap)
  next
    case False
    have t: "(y * w + x) * int n = 2147483648 - int c"
      using pc yx by simp
    have "0 \<le> p * int n"
      using p0 by simp
    then have "0 \<le> 2147483648 - int c \<and> 2147483648 - int c < 2147483648"
      using False pc by linarith
    then have "narrow_int (2147483648 - int c) = 2147483648 - int c"
      by (intro narrow_int_id) linarith+
    then have "narrow_int ((y * w + x) * int n) = 2147483648 - int c"
      by (simp only: t)
    then show ?thesis
      by (simp add: index_ok_def INT_MAX_def)
  qed
  then show ?thesis
    using x y0 yh c by blast
qed

lemma read_good:
  assumes "good s"
  shows "snd (read s k) = take k (remaining s)"
    and "gcount (fst (read s k)) = min k (length (remaining s))"
    and "gpos (fst (read s k)) = gpos s + min k (length (remaining s))"
    and "content (fst (read s k)) = content s"
    and "good (fst (read s k)) = (k \<le> length (remaining s))"
  using assms
  by (auto simp: read_def sentry_def good_def remaining_def Let_def min_def)

lemma read_not_good:
  assumes "\<not> good s"
  shows "snd (read s k) = []"
    and "gcount (fst (read s k)) = 0"
    and "gpos (fst (read s k)) = gpos s"
    and "content (fst (read s k)) = content s"
    and "\<not> good (fst (read s k))"
  using assms
  by (auto simp: read_def sentry_def good_def remaining_def Let_def)

lemma gcount_read: "gcount (fst (read s k)) = length (snd (read s k))"
  by (cases "good s") (simp_all add: read_good read_not_good)

lemma length_read_le: "length (snd (read s k)) \<le> k"
  by (cases "good s") (simp_all add: read_good read_not_good)

lemma length_floats_of_bytes [simp]: "length (floats_of_bytes little bs) = length bs div 4"
  by (simp add: floats_of_bytes_def)

lemma length_makeNChannels [simp]: "length (makeNChannels e n sz) = n"
  by (simp add: makeNChannels_def)

lemma nth_makeNChannels:
  "c < n \<Longrightarrow> makeNChannels e n sz ! c = \<lparr>name = channelName e n c, csize = sz, grid = (\<lambda>_. 0)\<rparr>"
  by (simp add: makeNChannels_def)

lemma set_int_upt: "set (map int [0..<nat w]) = {x. 0 \<le> x \<and> x < w}"
proof -
  have "x \<in> int ` {0..<nat w} \<longleftrightarrow> 0 \<le> x \<and> x < w" for x
  proof
    assume "x \<in> int ` {0..<nat w}"
    then show "0 \<le> x \<and> x < w" by auto
  next
    assume "0 \<le> x \<and> x < w"
    then have "nat x \<in> {0..<nat w} \<and> x = int (nat x)" by auto
    then show "x \<in> int ` {0..<nat w}" by blast
  qed
  then show ?thesis by auto
qed

lemma set_schedule_int:
  "valid_schedule e (nat h) \<Longrightarrow> set (map int (schedule e (nat h))) = {y. 0 \<le> y \<and> y < h}"
  using set_int_upt [of h] by (simp add: valid_schedule_def)

lemma set_all_writes:
  "set (all_writes e data sw scale (w, h) n ys) =
     {(c, (x, h - y - 1), decoded_value e data sw scale w n y x c) | y x c.
        y \<in> set ys \<and> 0 \<le> x \<and> x < w \<and> c < n}"
proof -
  have "set (row_writes e data sw scale (w, h) n y) =
      {(c, (x, h - y - 1), decoded_value e data sw scale w n y x c) | x c. 0 \<le> x \<and> x < w \<and> c < n}" for y
    unfolding row_writes_def set_concat set_map set_int_upt [unfolded set_map] by auto
  then show ?thesis
    unfolding all_writes_def set_concat set_map by auto
qed

lemma decode_accepted:
  assumes "checks_pass e s n"
  shows "decode e s =
     (if \<not> payload_complete e s n
      then (Inl (Not_sufficient_bytes
                  (int (gcount (fst (read (payload_stream e s)
                     (nat (parsed_width e s * parsed_height e s * int n * 4))))))
                  (parsed_width e s * parsed_height e s * int n * 4)),
            fst (read (payload_stream e s) (nat (parsed_width e s * parsed_height e s * int n * 4))))
      else (if rows_ok e s n then Inr (decoded_channels e s n) else Inl Undefined_read,
            fst (read (payload_stream e s) (nat (parsed_width e s * parsed_height e s * int n * 4)))))"
  using assms
  unfolding decode_unfold checks_pass_def payload_complete_def rows_ok_def decoded_channels_def
    parallelFor_eq
  by (simp add: Let_def)

lemma decode_Inr:
  assumes "fst (decode e s) = Inr chans"
  shows "\<exists>n. checks_pass e s n \<and> payload_complete e s n \<and> rows_ok e s n
           \<and> chans = decoded_channels e s n"
proof -
  obtain n where n: "numChannels_of (parsed_magic e s) = Some n"
    using assms unfolding decode_unfold by (auto split: option.splits)
  have acc: "checks_pass e s n"
    using assms n unfolding decode_unfold checks_pass_def
    by (auto simp: Let_def split: if_splits)
  show ?thesis
    using assms acc unfolding decode_accepted [OF acc]
    by (auto split: if_splits)
qed

lemma numChannels_of_cases:
  "numChannels_of m = Some n \<Longrightarrow> (m = ''Pf'' \<and> n = 1) \<or> (m = ''PF'' \<and> n = 3) \<or> (m = ''PF4'' \<and> n = 4)"
  by (auto simp: numChannels_of_def split: if_splits)

lemma numChannels_of_pos: "numChannels_of m = Some n \<Longrightarrow> 0 < n"
  by (auto dest: numChannels_of_cases)

lemma payload_complete_length:
  assumes "payload_complete e s n"
  shows "length (payload e s n) = nat (parsed_width e s * parsed_height e s * int n * 4)"
proof -
  let ?k = "nat (parsed_width e s * parsed_height e s * int n * 4)"
  have "length (snd (read (payload_stream e s) ?k)) \<le> ?k"
    by (rule length_read_le)
  moreover have "parsed_width e s * parsed_height e s * int n * 4
      \<le> int (length (snd (read (payload_stream e s) ?k)))"
    using assms by (simp add: payload_complete_def gcount_read)
  ultimately show ?thesis
    by (simp add: payload_def)
qed

lemma length_sample_buffer:
  assumes "payload_complete e s n"
  shows "length (sample_buffer e s n) = nat (parsed_width e s * parsed_height e s * int n)"
proof -
  have "nat (parsed_width e s * parsed_height e s * int n * 4)
      = nat (parsed_width e s * parsed_height e s * int n) * 4"
    by (simp add: nat_mult_distrib_neg nat_mult_distrib)
  then show ?thesis
    by (simp add: sample_buffer_def payload_complete_length [OF assms])
qed

lemma decoded_channels_nth:
  assumes "c < n"
  shows "name (decoded_channels e s n ! c) = channelName e n c"
    and "csize (decoded_channels e s n ! c) = (parsed_width e s, parsed_height e s)"
    and "grid (decoded_channels e s n ! c) (px, py) =
      (if parsed_height e s - 1 - py \<in> set (map int (schedule e (nat (parsed_height e s))))
          \<and> 0 \<le> px \<and> px < parsed_width e s
       then decoded_value e (sample_buffer e s n) (shallSwapBytes e (parsed_scale e s))
              (fabs (parsed_scale e s)) (parsed_width e s) n (parsed_height e s - 1 - py) px c
       else 0)"
proof -
  let ?w = "parsed_width e s" and ?h = "parsed_height e s"
  let ?ys = "map int (schedule e (nat ?h))"
  let ?ws = "all_writes e (sample_buffer e s n) (shallSwapBytes e (parsed_scale e s))
          (fabs (parsed_scale e s)) (?w, ?h) n ?ys"
  let ?F = "\<lambda>c p. decoded_value e (sample_buffer e s n) (shallSwapBytes e (parsed_scale e s))
              (fabs (parsed_scale e s)) ?w n (?h - 1 - snd p) (fst p) c"
  have F: "\<And>c p v. (c, p, v) \<in> set ?ws \<Longrightarrow> v = ?F c p"
    unfolding set_all_writes by auto
  have c: "c < length (makeNChannels e n (?w, ?h))"
    using assms by simp
  note nth = fold_cell_write_nth [of ?ws ?F c "makeNChannels e n (?w, ?h)", OF F c]
  show "name (decoded_channels e s n ! c) = channelName e n c"
    using nth [of "(px, py)"] assms by (simp add: decoded_channels_def nth_makeNChannels)
  show "csize (decoded_channels e s n ! c) = (?w, ?h)"
    using nth [of "(px, py)"] assms by (simp add: decoded_channels_def nth_makeNChannels)
  have mem: "(\<exists>v. (c, (px, py), v) \<in> set ?ws) \<longleftrightarrow>
      (?h - 1 - py \<in> set ?ys \<and> 0 \<le> px \<and> px < ?w)"
  proof
    assume "\<exists>v. (c, (px, py), v) \<in> set ?ws"
    then obtain y where "y \<in> set ?ys" "py = ?h - y - 1" "0 \<le> px" "px < ?w"
      unfolding set_all_writes by auto
    then show "?h - 1 - py \<in> set ?ys \<and> 0 \<le> px \<and> px < ?w"
      by simp
  next
    assume a: "?h - 1 - py \<in> set ?ys \<and> 0 \<le> px \<and> px < ?w"
    have "py = ?h - (?h - 1 - py) - 1"
      by simp
    then show "\<exists>v. (c, (px, py), v) \<in> set ?ws"
      unfolding set_all_writes using a assms by blast
  qed
  show "grid (decoded_channels e s n ! c) (px, py) =
      (if ?h - 1 - py \<in> set ?ys \<and> 0 \<le> px \<and> px < ?w
       then decoded_value e (sample_buffer e s n) (shallSwapBytes e (parsed_scale e s))
              (fabs (parsed_scale e s)) ?w n (?h - 1 - py) px c
       else 0)"
    using nth [of "(px, py)"] assms unfolding mem
    by (simp add: decoded_channels_def nth_makeNChannels)
qed

lemma length_decoded_channels [simp]: "length (decoded_channels e s n) = n"
  by (simp add: decoded_channels_def)

lemma rows_ok_valid:
  assumes "valid_schedule e (nat (parsed_height e s))"
  shows "rows_ok e s n \<longleftrightarrow>
     (\<forall>y x c. 0 \<le> y \<and> y < parsed_height e s \<and> 0 \<le> x \<and> x < parsed_width e s \<and> c < n
        \<longrightarrow> index_ok (sample_buffer e s n) (parsed_width e s) n y x c)"
  unfolding rows_ok_def set_schedule_int [OF assms] set_int_upt by auto

lemma rows_ok_iff:
  assumes "valid_schedule e (nat (parsed_height e s))"
    and "checks_pass e s n" and "payload_complete e s n"
    and "0 < parsed_width e s" and "0 < parsed_height e s"
  shows "rows_ok e s n \<longleftrightarrow> parsed_width e s * parsed_height e s * int n \<le> 2147483648"
proof
  assume ok: "rows_ok e s n"
  have n: "0 < n"
    using assms(2) by (auto simp: checks_pass_def dest: numChannels_of_pos)
  show "parsed_width e s * parsed_height e s * int n \<le> 2147483648"
  proof (rule ccontr)
    assume "\<not> parsed_width e s * parsed_height e s * int n \<le> 2147483648"
    then have "2147483648 < parsed_width e s * parsed_height e s * int n"
      by simp
    from index_ok_overflow [OF assms(4,5) n this, of "sample_buffer e s n"]
    show False
      using ok unfolding rows_ok_valid [OF assms(1)] by blast
  qed
next
  assume small: "parsed_width e s * parsed_height e s * int n \<le> 2147483648"
  show "rows_ok e s n"
    unfolding rows_ok_valid [OF assms(1)]
    using index_ok_small(1) [OF _ _ _ _ _ small length_sample_buffer [OF assms(3)]]
    by blast
qed

lemma decode_cells:
  assumes dec: "fst (decode e s) = Inr chans"
    and sched: "valid_schedule e (nat (parsed_height e s))"
    and n: "numChannels_of (parsed_magic e s) = Some n"
  shows "length chans = n"
    and "c < n \<Longrightarrow> name (chans ! c) = channelName e n c"
    and "c < n \<Longrightarrow> csize (chans ! c) = (parsed_width e s, parsed_height e s)"
    and "0 \<le> y \<Longrightarrow> y < parsed_height e s \<Longrightarrow> 0 \<le> x \<Longrightarrow> x < parsed_width e s \<Longrightarrow> c < n \<Longrightarrow>
         nat ((y * parsed_width e s + x) * int n + int c) < length (sample_buffer e s n)
         \<and> at (chans ! c) (x, parsed_height e s - 1 - y) =
            fmul e (fabs (parsed_scale e s))
              (if shallSwapBytes e (parsed_scale e s)
               then swapBytes (sample_buffer e s n ! nat ((y * parsed_width e s + x) * int n + int c))
               else sample_buffer e s n ! nat ((y * parsed_width e s + x) * int n + int c))"
proof -
  obtain n' where acc': "checks_pass e s n'" and pc': "payload_complete e s n'"
    and ok': "rows_ok e s n'" and ch': "chans = decoded_channels e s n'"
    using decode_Inr [OF dec] by blast
  have "n' = n"
    using acc' n by (simp add: checks_pass_def)
  then have acc: "checks_pass e s n" and pc: "payload_complete e s n"
    and ok: "rows_ok e s n" and ch: "chans = decoded_channels e s n"
    using acc' pc' ok' ch' by simp_all
  show "length chans = n"
    by (simp add: ch)
  show "c < n \<Longrightarrow> name (chans ! c) = channelName e n c"
    by (simp add: ch decoded_channels_nth)
  show "c < n \<Longrightarrow> csize (chans ! c) = (parsed_width e s, parsed_height e s)"
    by (simp add: ch decoded_channels_nth)
  assume b: "0 \<le> y" "y < parsed_height e s" "0 \<le> x" "x < parsed_width e s" "c < n"
  let ?w = "parsed_width e s" and ?h = "parsed_height e s"
  have pos: "0 < ?w" "0 < ?h"
    using b by linarith+
  have small: "?w * ?h * int n \<le> 2147483648"
    using rows_ok_iff [OF sched acc pc pos] ok by simp
  have nar: "narrow_int ((y * ?w + x) * int n) = (y * ?w + x) * int n"
    using index_ok_small(2) [OF b small length_sample_buffer [OF pc]] .
  have iok: "index_ok (sample_buffer e s n) ?w n y x c"
    using index_ok_small(1) [OF b small length_sample_buffer [OF pc]] .
  have ymem: "?h - 1 - (?h - 1 - y) \<in> set (map int (schedule e (nat ?h)))"
    using b unfolding set_schedule_int [OF sched] by simp
  have "grid (chans ! c) (x, ?h - 1 - y) =
      decoded_value e (sample_buffer e s n) (shallSwapBytes e (parsed_scale e s))
        (fabs (parsed_scale e s)) ?w n y x c"
    unfolding ch decoded_channels_nth(3) [OF b(5)] using ymem b by simp
  then show "nat ((y * ?w + x) * int n + int c) < length (sample_buffer e s n)
         \<and> at (chans ! c) (x, ?h - 1 - y) =
            fmul e (fabs (parsed_scale e s))
              (if shallSwapBytes e (parsed_scale e s)
               then swapBytes (sample_buffer e s n ! nat ((y * ?w + x) * int n + int c))
               else sample_buffer e s n ! nat ((y * ?w + x) * int n + int c))"
    using iok by (simp add: at_def decoded_value_def nar index_ok_def Let_def)
qed

lemma decode_overflow:
  assumes "valid_schedule e (nat (parsed_height e s))"
    and "checks_pass e s n" and "payload_complete e s n"
    and "0 < parsed_width e s" and "0 < parsed_height e s"
    and "2147483648 < parsed_width e s * parsed_height e s * int n"
  shows "fst (decode e s) = Inl Undefined_read"
  using rows_ok_iff [OF assms(1-5)] assms(3,6)
  by (simp add: decode_accepted [OF assms(2)])

lemma decode_small:
  assumes "valid_schedule e (nat (parsed_height e s))"
    and "checks_pass e s n" and "payload_complete e s n"
    and "0 < parsed_width e s" and "0 < parsed_height e s"
    and "parsed_width e s * parsed_height e s * int n \<le> 2147483648"
  shows "fst (decode e s) = Inr (decoded_channels e s n)"
  using rows_ok_iff [OF assms(1-5)] assms(3,6)
  by (simp add: decode_accepted [OF assms(2)])

lemma extract_float_schedule [simp]:
  "extract_float (e\<lparr>schedule := sch\<rparr>) s v = extract_float e s v"
  by (cases "sentry False s"; cases "fst (sentry False s)") (simp_all add: extract_float_def)

lemma parse_header_schedule [simp]: "parse_header (e\<lparr>schedule := sch\<rparr>) s = parse_header e s"
  by (simp add: parse_header_def)

lemma decoded_value_schedule [simp]:
  "decoded_value (e\<lparr>schedule := sch\<rparr>) data sw scale w n y x c = decoded_value e data sw scale w n y x c"
  by (simp add: decoded_value_def)

lemma parallelFor_schedule:
  assumes "valid_schedule e (nat h)" and "valid_schedule (e\<lparr>schedule := sch\<rparr>) (nat h)"
  shows "parallelFor (e\<lparr>schedule := sch\<rparr>) 0 h (row_body (e\<lparr>schedule := sch\<rparr>) data sw scale (w, h) n) chans
       = parallelFor e 0 h (row_body e data sw scale (w, h) n) chans"
proof -
  let ?e' = "e\<lparr>schedule := sch\<rparr>"
  let ?ws = "all_writes e data sw scale (w, h) n (map int (schedule e (nat h)))"
  let ?ws' = "all_writes ?e' data sw scale (w, h) n (map int (schedule ?e' (nat h)))"
  let ?F = "\<lambda>c p. decoded_value e data sw scale w n (h - 1 - snd p) (fst p) c"
  have sets: "set (map int (schedule ?e' (nat h))) = set (map int (schedule e (nat h)))"
    unfolding set_schedule_int [OF assms(1)] set_schedule_int [OF assms(2)] ..
  have F: "\<And>c p v. (c, p, v) \<in> set ?ws \<Longrightarrow> v = ?F c p"
    unfolding set_all_writes by auto
  have "set ?ws' = set ?ws"
    unfolding set_all_writes sets by simp
  then have "fold cell_write ?ws' chans = fold cell_write ?ws chans"
    using fold_cell_write_cong [of ?ws ?F ?ws' chans] F by blast
  then show ?thesis
    unfolding parallelFor_eq sets by simp
qed

lemma decode_schedule:
  assumes "valid_schedule e (nat (parsed_height e s))"
    and "valid_schedule (e\<lparr>schedule := sch\<rparr>) (nat (parsed_height e s))"
  shows "decode (e\<lparr>schedule := sch\<rparr>) s = decode e s"
proof -
  let ?e' = "e\<lparr>schedule := sch\<rparr>"
  have eqs: "parsed_magic ?e' s = parsed_magic e s" "parsed_width ?e' s = parsed_width e s"
    "parsed_height ?e' s = parsed_height e s" "parsed_scale ?e' s = parsed_scale e s"
    "after_header ?e' s = after_header e s" "payload_stream ?e' s = payload_stream e s"
    "\<And>n. sample_buffer ?e' s n = sample_buffer e s n"
    "\<And>f. shallSwapBytes ?e' f = shallSwapBytes e f"
    "\<And>n sz. makeNChannels ?e' n sz = makeNChannels e n sz"
    by (simp_all add: parsed_magic_def parsed_width_def parsed_height_def parsed_scale_def
        after_header_def payload_stream_def sample_buffer_def payload_def shallSwapBytes_def
        makeNChannels_def)
  show ?thesis
    unfolding decode_unfold eqs
    using parallelFor_schedule [OF assms]
    by (simp add: Let_def split: option.split)
qed

lemma skip_newline_not_good:
  "\<not> good s \<Longrightarrow> skip_newline s = s\<lparr>gcount := 0, failbit := True\<rparr>"
  by (subst skip_newline.simps) (simp add: get_def sentry_def good_def)

lemma get_good:
  "good s \<Longrightarrow> remaining s = c # r \<Longrightarrow> get s = (s\<lparr>gpos := gpos s + 1, gcount := 1\<rparr>, Some c)"
  by (simp add: get_def sentry_def good_def remaining_def)

lemma skip_newline_found:
  assumes "good s" and "remaining s = pre @ t # rest" and "t = CHR 0x0D \<or> t = CHR 0x0A"
    and "\<forall>c\<in>set pre. c \<noteq> CHR 0x0D \<and> c \<noteq> CHR 0x0A"
  shows "skip_newline s = s\<lparr>gpos := gpos s + length pre + 1, gcount := 1\<rparr>"
  using assms
proof (induction pre arbitrary: s)
  case Nil
  then have "get s = (s\<lparr>gpos := gpos s + 1, gcount := 1\<rparr>, Some t)"
    by (simp add: get_good)
  then show ?case
    using Nil.prems(3) by (subst skip_newline.simps) auto
next
  case (Cons a pre)
  let ?s' = "s\<lparr>gpos := gpos s + 1, gcount := 1\<rparr>"
  have g: "get s = (?s', Some a)"
    using Cons.prems(1,2) by (simp add: get_good)
  have a: "a \<noteq> CHR 0x0D \<and> a \<noteq> CHR 0x0A"
    using Cons.prems(4) by simp
  have "drop (Suc (gpos s)) (content s) = tl (drop (gpos s) (content s))"
    by (simp add: drop_Suc tl_drop)
  then have r: "remaining ?s' = pre @ t # rest"
    using Cons.prems(2) by (simp add: remaining_def)
  have "skip_newline ?s' = ?s'\<lparr>gpos := gpos ?s' + length pre + 1, gcount := 1\<rparr>"
    using Cons.prems by (intro Cons.IH [OF _ r]) (simp_all add: good_def)
  then show ?case
    using g a by (subst skip_newline.simps) simp
qed

lemma matches_concat:
  "concat (map (\<lambda>i. case m i of Some r \<Rightarrow> [(r, i)] | None \<Rightarrow> []) js) =
     map (\<lambda>i. (the (m i), i)) (filter (\<lambda>i. m i \<noteq> None) js)"
  by (induction js) (auto split: option.splits)

lemma load_of_decode:
  "load e s sel =
     (case decode e s of
        (Inl err, s') \<Rightarrow> (Inl err, s')
      | (Inr chans, s') \<Rightarrow>
          (Inr (\<lparr>channels = map (\<lambda>m. chans ! snd m)
                   ((if sel \<noteq> [] then sort else (\<lambda>ms. ms))
                      (map (\<lambda>i. (the (matchesFuzzy e (name (chans ! i)) sel), i))
                         (filter (\<lambda>i. matchesFuzzy e (name (chans ! i)) sel \<noteq> None)
                            [0..<length chans]))),
                  layers = [[]]\<rparr>, False), s'))"
  by (simp add: load_def matches_concat Let_def split: prod.splits sum.splits)

lemma snd_load [simp]: "snd (load e s sel) = snd (decode e s)"
  by (simp add: load_def Let_def split: prod.splits sum.splits)

lemma load_Inl: "fst (load e s sel) = Inl err \<longleftrightarrow> fst (decode e s) = Inl err"
  by (auto simp: load_def Let_def split: prod.splits sum.splits)

lemma selection_order:
  fixes rank :: "nat \<Rightarrow> nat" and P :: "nat \<Rightarrow> bool" and n :: nat
  defines "ms \<equiv> sort (map (\<lambda>i. (rank i, i)) (filter P [0..<n]))"
  shows "distinct (map snd ms)"
    and "set (map snd ms) = {i. i < n \<and> P i}"
    and "sorted_wrt (\<lambda>i j. rank i < rank j \<or> rank i = rank j \<and> i < j) (map snd ms)"
proof -
  let ?M = "map (\<lambda>i. (rank i, i)) (filter P [0..<n])"
  have el: "\<And>p. p \<in> set ms \<Longrightarrow> p = (rank (snd p), snd p)"
    by (auto simp: ms_def)
  then have ms: "ms = map (\<lambda>i. (rank i, i)) (map snd ms)"
    by (simp add: map_idI comp_def)
  have dM: "distinct ?M"
    by (simp add: distinct_map inj_on_def)
  then have d: "distinct ms"
    by (simp add: ms_def)
  show "distinct (map snd ms)"
  proof -
    have "inj_on snd (set ms)"
      using el by (metis inj_onI)
    then show ?thesis
      using d by (simp add: distinct_map)
  qed
  show "set (map snd ms) = {i. i < n \<and> P i}"
    by (auto simp: ms_def image_iff)
  have "sorted_wrt (<) ms"
    using d by (simp add: strict_sorted_iff ms_def)
  then have "sorted_wrt (<) (map (\<lambda>i. (rank i, i)) (map snd ms))"
    using ms by simp
  then have "sorted_wrt (\<lambda>i j. (rank i, i) < (rank j, j)) (map snd ms)"
    by (simp only: sorted_wrt_map)
  then show "sorted_wrt (\<lambda>i j. rank i < rank j \<or> rank i = rank j \<and> i < j) (map snd ms)"
    by (rule sorted_wrt_mono_rel [rotated]) auto
qed

section \<open>The sniff\<close>

text \<open>
  C7, as the code has it. On a stream that is good, \<open>canLoadFile\<close> returns true exactly
  when the two bytes at the read position are \<open>P\<close> and then \<open>F\<close> or \<open>f\<close>; with fewer
  than two bytes there it returns false. Whatever it returns, the stream is left at
  offset 0 with no error flag set, over the same bytes; that is the state it was found in
  when it was found at offset 0 with no flag set.
\<close>

theorem canLoadFile_sniff:
  "(good s \<longrightarrow>
      fst (canLoadFile s) = (take 2 (remaining s) = ''PF'' \<or> take 2 (remaining s) = ''Pf''))
   \<and> (length (remaining s) < 2 \<longrightarrow> \<not> fst (canLoadFile s))
   \<and> content (snd (canLoadFile s)) = content s
   \<and> gpos (snd (canLoadFile s)) = 0
   \<and> good (snd (canLoadFile s))
   \<and> (gpos s = 0 \<and> good s \<longrightarrow>
        gpos (snd (canLoadFile s)) = gpos s \<and> eofbit (snd (canLoadFile s)) = eofbit s
        \<and> failbit (snd (canLoadFile s)) = failbit s \<and> badbit (snd (canLoadFile s)) = badbit s)"
proof -
  have flags: "content (snd (canLoadFile s)) = content s \<and> gpos (snd (canLoadFile s)) = 0
      \<and> good (snd (canLoadFile s))"
    by (simp add: canLoadFile_def case_prod_beta Let_def clear_def seekg_def fail_def good_def
        read_def sentry_def split: prod.splits bool.splits)
  have res: "fst (canLoadFile s) = (take 2 (remaining s) = ''PF'' \<or> take 2 (remaining s) = ''Pf'')"
    if g: "good s"
  proof (cases "2 \<le> length (remaining s)")
    case True
    then obtain a b r where r: "remaining s = a # b # r"
      by (cases "remaining s"; cases "tl (remaining s)") auto
    have "\<not> fail (fst (read s 2))"
      using read_good(5) [OF g, of 2] True by (simp add: good_def fail_def)
    then show ?thesis
      using read_good [OF g, of 2] r
      by (auto simp: canLoadFile_def case_prod_beta Let_def)
  next
    case False
    then have "gcount (fst (read s 2)) \<noteq> 2" "take 2 (remaining s) \<noteq> ''PF''"
      "take 2 (remaining s) \<noteq> ''Pf''"
      using read_good(2) [OF g, of 2] by (auto simp: min_def dest: arg_cong [where f = length])
    then show ?thesis
      by (simp add: canLoadFile_def case_prod_beta Let_def)
  qed
  have short: "\<not> fst (canLoadFile s)" if "length (remaining s) < 2"
  proof (cases "good s")
    case True
    have "take 2 (remaining s) \<noteq> ''PF''" "take 2 (remaining s) \<noteq> ''Pf''"
      using that by (auto dest: arg_cong [where f = length])
    then show ?thesis
      using res [OF True] by simp
  next
    case False
    then show ?thesis
      using read_not_good(2) [OF False, of 2]
      by (simp add: canLoadFile_def case_prod_beta Let_def)
  qed
  show ?thesis
    using flags res short by (auto simp: good_def)
qed

theorem canLoadFile_sniff_witness:
  "good flip_stream \<and> gpos flip_stream = 0
   \<and> fst (canLoadFile flip_stream)
   \<and> take 2 (remaining flip_stream) = ''Pf''
   \<and> length (remaining (stream_of ''P'')) < 2
   \<and> \<not> fst (canLoadFile (stream_of ''P''))
   \<and> gpos (snd (canLoadFile flip_stream)) = gpos flip_stream
   \<and> eofbit (snd (canLoadFile flip_stream)) = eofbit flip_stream
   \<and> failbit (snd (canLoadFile flip_stream)) = failbit flip_stream
   \<and> badbit (snd (canLoadFile flip_stream)) = badbit flip_stream"
proof -
  have h: "good flip_stream" "gpos flip_stream = 0" "take 2 (remaining flip_stream) = ''Pf''"
    "length (remaining (stream_of ''P'')) < 2"
    by (simp_all add: flip_stream_def stream_of_def good_def remaining_def)
  show ?thesis
    using canLoadFile_sniff [of flip_stream] canLoadFile_sniff [of "stream_of ''P''"] h
    by simp
qed

text \<open>
  The sniff does not restore every stream: one found at offset 2 is left at offset 0
  (and is accepted though its first byte is not \<open>P\<close>), and one found with \<open>eofbit\<close> set
  is rejected though it holds \<open>PF\<close>, and is left with the flag cleared.
\<close>

theorem canLoadFile_restore_counterexample:
  "fst (canLoadFile offset_stream)
   \<and> content offset_stream ! 0 \<noteq> CHR ''P''
   \<and> gpos (snd (canLoadFile offset_stream)) \<noteq> gpos offset_stream
   \<and> \<not> fst (canLoadFile eof_stream)
   \<and> content eof_stream = ''PF''
   \<and> eofbit (snd (canLoadFile eof_stream)) \<noteq> eofbit eof_stream"
  by (simp add: offset_stream_def eof_stream_def stream_of_def canLoadFile_def read_def
      sentry_def good_def fail_def remaining_def clear_def seekg_def Let_def)

lemma parsed_magic_eq: "parsed_magic e s = snd (extract_string s [])"
  by (simp add: parsed_magic_def parse_header_def case_prod_beta)

lemma decode_invalid_magic:
  "numChannels_of (parsed_magic e s) = None \<Longrightarrow>
     decode e s = (Inl (Invalid_magic (parsed_magic e s)), after_header e s)"
  by (simp add: decode_unfold)

lemma decode_invalid_scale:
  "\<not> isfinite (parsed_scale e s) \<or> is_zero (parsed_scale e s) \<Longrightarrow>
     \<exists>err. decode e s = (Inl err, after_header e s) \<and> InvalidFormat err"
  by (cases "numChannels_of (parsed_magic e s)") (auto simp: decode_unfold)

lemma decode_zero_pixels:
  "parsed_width e s * parsed_height e s = 0 \<Longrightarrow>
     \<exists>err. decode e s = (Inl err, after_header e s) \<and> InvalidFormat err
       \<and> (numChannels_of (parsed_magic e s) \<noteq> None \<and> isfinite (parsed_scale e s)
            \<and> \<not> is_zero (parsed_scale e s) \<longrightarrow> err = Zero_pixels)"
  by (cases "numChannels_of (parsed_magic e s)") (auto simp: decode_unfold)

section \<open>The magic string\<close>

text \<open>
  C5. The magic string \<open>Pf\<close> gives 1 channel, \<open>PF\<close> gives 3 and \<open>PF4\<close> gives 4, and a run
  that decodes has the channels of its magic string; for every other token \<open>load\<close> fails
  with the error of line 41, which carries the token.
\<close>

theorem magic_channel_count:
  "numChannels_of ''Pf'' = Some 1 \<and> numChannels_of ''PF'' = Some 3
   \<and> numChannels_of ''PF4'' = Some 4
   \<and> (fst (decode e s) = Inr chans \<longrightarrow>
        (parsed_magic e s = ''Pf'' \<and> length chans = 1)
        \<or> (parsed_magic e s = ''PF'' \<and> length chans = 3)
        \<or> (parsed_magic e s = ''PF4'' \<and> length chans = 4))
   \<and> (parsed_magic e s \<noteq> ''Pf'' \<and> parsed_magic e s \<noteq> ''PF'' \<and> parsed_magic e s \<noteq> ''PF4'' \<longrightarrow>
        fst (load e s sel) = Inl (Invalid_magic (parsed_magic e s))
        \<and> InvalidFormat (Invalid_magic (parsed_magic e s)))"
proof -
  have a: "numChannels_of ''Pf'' = Some 1 \<and> numChannels_of ''PF'' = Some 3
      \<and> numChannels_of ''PF4'' = Some 4"
    by (simp add: numChannels_of_def)
  have b: "(parsed_magic e s = ''Pf'' \<and> length chans = 1)
        \<or> (parsed_magic e s = ''PF'' \<and> length chans = 3)
        \<or> (parsed_magic e s = ''PF4'' \<and> length chans = 4)"
    if dec: "fst (decode e s) = Inr chans"
  proof -
    obtain n where "checks_pass e s n" and "chans = decoded_channels e s n"
      using decode_Inr [OF dec] by blast
    then have "numChannels_of (parsed_magic e s) = Some n" and "length chans = n"
      by (simp_all add: checks_pass_def)
    then show ?thesis
      using numChannels_of_cases by blast
  qed
  have c: "fst (load e s sel) = Inl (Invalid_magic (parsed_magic e s))"
    if "parsed_magic e s \<noteq> ''Pf'' \<and> parsed_magic e s \<noteq> ''PF'' \<and> parsed_magic e s \<noteq> ''PF4''"
  proof -
    have "numChannels_of (parsed_magic e s) = None"
      using that by (simp add: numChannels_of_def)
    then show ?thesis
      by (simp add: load_Inl decode_invalid_magic)
  qed
  show ?thesis
    using a b c by simp
qed

theorem magic_channel_count_witness:
  "\<exists>chans. fst (decode example_env flip_stream) = Inr chans
     \<and> parsed_magic example_env flip_stream = ''Pf'' \<and> length chans = 1
     \<and> parsed_magic example_env pfx_stream = ''PFX''
     \<and> fst (load example_env pfx_stream []) = Inl (Invalid_magic ''PFX'')"
proof -
  have "case decode example_env flip_stream of (Inr _, _) \<Rightarrow> True | (Inl _, _) \<Rightarrow> False"
    by code_simp
  then obtain chans where d: "fst (decode example_env flip_stream) = Inr chans"
    by (auto split: prod.splits sum.splits)
  have m: "parsed_magic example_env flip_stream = ''Pf''"
    "parsed_magic example_env pfx_stream = ''PFX''"
    by code_simp+
  show ?thesis
    using magic_channel_count [of example_env flip_stream chans]
      magic_channel_count [of example_env pfx_stream _ "[]"] d m
    by simp
qed

section \<open>The sniff accepts more than the loader\<close>

text \<open>
  C10. The streams that start with the tokens \<open>PFX\<close> and \<open>Pfoo\<close> pass the sniff, which
  looks at two bytes, and \<open>load\<close> on the stream the sniff hands back fails with the error
  of line 41 for the whole token.
\<close>

theorem sniff_weaker_than_load:
  "fst (canLoadFile pfx_stream)
   \<and> fst (load e (snd (canLoadFile pfx_stream)) sel) = Inl (Invalid_magic ''PFX'')
   \<and> InvalidFormat (Invalid_magic ''PFX'')
   \<and> fst (canLoadFile pfoo_stream)
   \<and> fst (load e (snd (canLoadFile pfoo_stream)) sel) = Inl (Invalid_magic ''Pfoo'')
   \<and> InvalidFormat (Invalid_magic ''Pfoo'')"
proof -
  have s: "fst (canLoadFile pfx_stream)" "fst (canLoadFile pfoo_stream)"
    by code_simp+
  have m: "parsed_magic e (snd (canLoadFile pfx_stream)) = ''PFX''"
    "parsed_magic e (snd (canLoadFile pfoo_stream)) = ''Pfoo''"
    unfolding parsed_magic_eq by code_simp+
  have n: "numChannels_of ''PFX'' = None" "numChannels_of ''Pfoo'' = None"
    by (simp_all add: numChannels_of_def)
  show ?thesis
    using s m n by (simp add: load_Inl decode_invalid_magic)
qed

theorem sniff_weaker_than_load_witness:
  "fst (canLoadFile pfx_stream)
   \<and> fst (load example_env (snd (canLoadFile pfx_stream)) []) = Inl (Invalid_magic ''PFX'')
   \<and> fst (canLoadFile pfoo_stream)
   \<and> fst (load example_env (snd (canLoadFile pfoo_stream)) ''R'') = Inl (Invalid_magic ''Pfoo'')"
  using sniff_weaker_than_load [of example_env "[]"] sniff_weaker_than_load [of example_env "''R''"]
  by simp

section \<open>Images without pixels\<close>

text \<open>
  C4, as the code has it. When the parsed width or the parsed height is 0, \<open>load\<close> fails
  with an error of the kind \<open>InvalidFormat\<close> (the error of line 55 when the magic string
  and the scale are valid) and leaves the stream as line 31 left it: no byte after the
  four tokens is consumed.
\<close>

theorem zero_pixels_rejected:
  "parsed_width e s = 0 \<or> parsed_height e s = 0 \<Longrightarrow>
     (\<exists>err. fst (load e s sel) = Inl err \<and> InvalidFormat err)
     \<and> snd (load e s sel) = after_header e s
     \<and> (numChannels_of (parsed_magic e s) \<noteq> None \<and> isfinite (parsed_scale e s)
          \<and> \<not> is_zero (parsed_scale e s) \<longrightarrow> fst (load e s sel) = Inl Zero_pixels)"
proof -
  assume "parsed_width e s = 0 \<or> parsed_height e s = 0"
  then have "parsed_width e s * parsed_height e s = 0"
    by auto
  from decode_zero_pixels [OF this] obtain err where
    "decode e s = (Inl err, after_header e s)" "InvalidFormat err"
    "numChannels_of (parsed_magic e s) \<noteq> None \<and> isfinite (parsed_scale e s)
       \<and> \<not> is_zero (parsed_scale e s) \<longrightarrow> err = Zero_pixels"
    by blast
  then show ?thesis
    by (simp add: load_Inl)
qed

theorem zero_pixels_rejected_witness:
  "parsed_width example_env zero_width_stream = 0
   \<and> fst (load example_env zero_width_stream []) = Inl Zero_pixels
   \<and> snd (load example_env zero_width_stream []) = after_header example_env zero_width_stream
   \<and> gpos (after_header example_env zero_width_stream) = 8"
proof -
  have h: "parsed_width example_env zero_width_stream = 0"
    "numChannels_of (parsed_magic example_env zero_width_stream) \<noteq> None"
    "isfinite (parsed_scale example_env zero_width_stream)"
    "\<not> is_zero (parsed_scale example_env zero_width_stream)"
    "gpos (after_header example_env zero_width_stream) = 8"
    by code_simp+
  show ?thesis
    using zero_pixels_rejected [of example_env zero_width_stream "[]"] h by simp
qed

text \<open>
  A width of -1 is not rejected by line 54: with the height 1 the number of pixels is -1,
  not 0, and the run ends in the constructor of line 66, with an error that is not of
  the kind \<open>InvalidFormat\<close>.
\<close>

theorem negative_width_counterexample:
  "parsed_width example_env negative_width_stream = - 1
   \<and> fst (load example_env negative_width_stream []) = Inl Length_error
   \<and> \<not> InvalidFormat Length_error"
proof -
  have "case fst (load example_env negative_width_stream []) of
          Inl err \<Rightarrow> err = Length_error | Inr _ \<Rightarrow> False"
    by code_simp
  then have "fst (load example_env negative_width_stream []) = Inl Length_error"
    by (simp split: sum.splits)
  moreover have "parsed_width example_env negative_width_stream = - 1"
    by code_simp
  ultimately show ?thesis
    by simp
qed

lemma read_available:
  "gcount (fst (read s k)) = min k (available s)"
  "gpos (fst (read s k)) = gpos s + min k (available s)"
  by (cases "good s"; simp add: available_def read_good read_not_good)+

lemma checks_pass_bytes:
  assumes "checks_pass e s n"
  shows "0 < parsed_width e s * parsed_height e s * int n * 4"
proof -
  have "0 < n"
    using assms by (auto simp: checks_pass_def dest: numChannels_of_pos)
  moreover have "parsed_width e s * parsed_height e s \<noteq> 0"
    and "0 \<le> parsed_width e s * parsed_height e s * int n"
    using assms by (simp_all add: checks_pass_def)
  ultimately have "0 < parsed_width e s * parsed_height e s * int n"
    by (metis less_le mult_eq_0_iff of_nat_0_less_iff less_irrefl)
  then show ?thesis
    by simp
qed


lemma decode_full_read:
  assumes "checks_pass e s n"
    and "parsed_width e s * parsed_height e s * int n * 4 \<le> int (available (payload_stream e s))"
  shows "good (payload_stream e s)"
    and "payload_complete e s n"
    and "gpos (snd (decode e s)) =
           gpos (payload_stream e s) + nat (parsed_width e s * parsed_height e s * int n * 4)"
    and "gcount (snd (decode e s)) = nat (parsed_width e s * parsed_height e s * int n * 4)"
    and "fst (decode e s) = Inl err \<Longrightarrow> err = Undefined_read"
proof -
  let ?nb = "parsed_width e s * parsed_height e s * int n * 4"
  let ?ps = "payload_stream e s"
  have pos: "0 < ?nb"
    using checks_pass_bytes [OF assms(1)] .
  show "good ?ps"
    using assms(2) pos by (auto simp: available_def split: if_splits)
  have "nat ?nb \<le> available ?ps"
    using assms(2) by linarith
  then have g: "gcount (fst (read ?ps (nat ?nb))) = nat ?nb"
    "gpos (fst (read ?ps (nat ?nb))) = gpos ?ps + nat ?nb"
    by (simp_all add: read_available min_def)
  then show pc: "payload_complete e s n"
    using pos by (simp add: payload_complete_def)
  have sd: "snd (decode e s) = fst (read ?ps (nat ?nb))"
    using pc by (simp add: decode_accepted [OF assms(1)])
  show "gpos (snd (decode e s)) = gpos ?ps + nat ?nb"
    and "gcount (snd (decode e s)) = nat ?nb"
    using g by (simp_all add: sd)
  show "fst (decode e s) = Inl err \<Longrightarrow> err = Undefined_read"
    using pc by (auto simp: decode_accepted [OF assms(1)] split: if_splits)
qed

section \<open>The payload\<close>



section \<open>The end of the header\<close>

text \<open>
  C8. When the four tokens leave the stream good and a carriage return or a line feed
  follows, whatever bytes stand before it, the loop of line 63 consumes the bytes up to
  and including the first of them and nothing more, and the payload is read from the
  byte after it.
\<close>

theorem header_terminator:
  assumes "good (after_header e s)"
    and "remaining (after_header e s) = pre @ t # rest"
    and "t = CHR 0x0D \<or> t = CHR 0x0A"
    and "\<forall>c\<in>set pre. c \<noteq> CHR 0x0D \<and> c \<noteq> CHR 0x0A"
  shows "gpos (payload_stream e s) = gpos (after_header e s) + length pre + 1
       \<and> good (payload_stream e s)
       \<and> remaining (payload_stream e s) = rest
       \<and> payload e s n = take (nat (parsed_width e s * parsed_height e s * int n * 4)) rest
       \<and> (header_accepted e s n
            \<and> parsed_width e s * parsed_height e s * int n * 4 \<le> int (length rest) \<longrightarrow>
          gpos (snd (load e s sel)) =
            gpos (after_header e s) + length pre + 1
              + nat (parsed_width e s * parsed_height e s * int n * 4))"
proof -
  let ?s4 = "after_header e s"
  have ps: "payload_stream e s = ?s4\<lparr>gpos := gpos ?s4 + length pre + 1, gcount := 1\<rparr>"
    unfolding payload_stream_def by (rule skip_newline_found [OF assms])
  have g: "good (payload_stream e s)"
    using assms(1) by (simp add: ps good_def)
  have "drop (gpos ?s4 + length pre + 1) (content ?s4) = drop (length pre + 1) (remaining ?s4)"
    by (simp add: remaining_def add.commute add.left_commute)
  then have r: "remaining (payload_stream e s) = rest"
    by (simp add: ps remaining_def [of "_\<lparr>gpos := _, gcount := _\<rparr>"] assms(2))
  have p: "payload e s n = take (nat (parsed_width e s * parsed_height e s * int n * 4)) rest"
    by (simp add: payload_def read_good(1) [OF g] r)
  have "gpos (snd (load e s sel)) =
      gpos ?s4 + length pre + 1 + nat (parsed_width e s * parsed_height e s * int n * 4)"
    if "header_accepted e s n"
      and "parsed_width e s * parsed_height e s * int n * 4 \<le> int (length rest)"
  proof -
    have "parsed_width e s * parsed_height e s * int n * 4 \<le> int (available (payload_stream e s))"
      using that(2) g r by (simp add: available_def)
    then show ?thesis
      using decode_full_read(3) [OF header_accepted_checks [OF that(1)]] by (simp add: ps)
  qed
  then show ?thesis
    using ps g r p by simp
qed

theorem header_terminator_witness:
  "good (after_header example_env padded_stream)
   \<and> remaining (after_header example_env padded_stream) = '' junk'' @ CHR 0x0D # flip_payload
   \<and> header_accepted example_env padded_stream 1
   \<and> gpos (after_header example_env padded_stream) = 11
   \<and> gpos (payload_stream example_env padded_stream) = 17
   \<and> remaining (payload_stream example_env padded_stream) = flip_payload
   \<and> payload example_env padded_stream 1 = flip_payload
   \<and> gpos (snd (load example_env padded_stream [])) = 33"
proof -
  have h: "good (after_header example_env padded_stream)"
    "remaining (after_header example_env padded_stream) = '' junk'' @ CHR 0x0D # flip_payload"
    "header_accepted example_env padded_stream 1"
    "gpos (after_header example_env padded_stream) = 11"
    "parsed_width example_env padded_stream = 2" "parsed_height example_env padded_stream = 2"
    "length flip_payload = 16"
    by code_simp+
  have t: "CHR 0x0D = CHR 0x0D \<or> CHR 0x0D = CHR 0x0A"
    by simp
  have p: "\<forall>c\<in>set '' junk''. c \<noteq> CHR 0x0D \<and> c \<noteq> CHR 0x0A"
    by simp
  show ?thesis
    using header_terminator [OF h(1,2) t p, of 1 "[]"] h
    by simp
qed

lemma huge_header:
  "parse_header example_env
     (stream_of (''PF4\<newline>536870913 1\<newline>-1.0\<newline>'' @ tail)) =
   ((stream_of (''PF4\<newline>536870913 1\<newline>-1.0\<newline>'' @ tail))\<lparr>gpos := 20\<rparr>,
    ''PF4'', 536870913, 1, 0xBF800000)"
  by (simp add: parse_header_def extract_string_def extract_int_def scan_int_def
      extract_float_def sentry_def good_def remaining_def isspace_def isdigit_def
      digits_value_def example_env_def stream_of_def INT_MAX_def INT_MIN_def Let_def)

lemma huge_facts:
  "after_header example_env huge_stream = huge_stream\<lparr>gpos := 20\<rparr>"
  "parsed_magic example_env huge_stream = ''PF4''"
  "parsed_width example_env huge_stream = 536870913"
  "parsed_height example_env huge_stream = 1"
  "parsed_scale example_env huge_stream = 0xBF800000"
  unfolding after_header_def parsed_magic_def parsed_width_def parsed_height_def
    parsed_scale_def huge_stream_def huge_header
  by simp_all

lemma huge_payload_stream:
  "payload_stream example_env huge_stream = huge_stream\<lparr>gpos := 21, gcount := 1\<rparr>"
proof -
  let ?s4 = "huge_stream\<lparr>gpos := 20\<rparr>"
  have g: "good ?s4"
    by (simp add: huge_stream_def stream_of_def good_def)
  have r: "remaining ?s4 = [] @ CHR 0x0A # replicate 8589934608 (CHR 0x00)"
    by (simp add: huge_stream_def stream_of_def remaining_def)
  have "skip_newline ?s4 = ?s4\<lparr>gpos := gpos ?s4 + length ([] :: string) + 1, gcount := 1\<rparr>"
    by (rule skip_newline_found [OF g r]) simp_all
  then show ?thesis
    by (simp add: payload_stream_def huge_facts)
qed

lemma huge_accepted: "header_accepted example_env huge_stream 4"
proof -
  have "isfinite 0xBF800000" "\<not> is_zero 0xBF800000"
    by code_simp+
  then show ?thesis
    by (simp add: header_accepted_def huge_facts numChannels_of_def max_size_def)
qed

lemma huge_available: "available (payload_stream example_env huge_stream) = 8589934608"
  unfolding huge_payload_stream
  by (simp add: available_def good_def remaining_def huge_stream_def stream_of_def)

section \<open>The decoded samples\<close>

text \<open>
  The positive part of C1. For an accepted header with a complete payload of at most
  \<open>2^31\<close> floats, and a schedule that runs every row once, the parallel loop returns the
  channels, one per channel of the magic string, and for every row \<open>y\<close>, column \<open>x\<close> and
  channel \<open>c\<close> the sample at the flat index \<open>(y * width + x) * channels + c\<close> of the
  buffer, with its bytes swapped when \<open>shallSwapBytes\<close> holds, multiplied by the absolute
  value of the scale, is at \<open>(x, height - 1 - y)\<close> of channel \<open>c\<close>.
\<close>

theorem decode_vertical_flip:
  assumes "header_accepted e s n"
    and "parsed_width e s * parsed_height e s * int n * 4 \<le> int (available (payload_stream e s))"
    and "valid_schedule e (nat (parsed_height e s))"
    and "parsed_width e s * parsed_height e s * int n \<le> 2147483648"
  shows "\<exists>chans. fst (decode e s) = Inr chans \<and> length chans = n
     \<and> (\<forall>y x c. 0 \<le> y \<and> y < parsed_height e s \<and> 0 \<le> x \<and> x < parsed_width e s \<and> c < n \<longrightarrow>
           nat ((y * parsed_width e s + x) * int n + int c) < length (sample_buffer e s n)
           \<and> at (chans ! c) (x, parsed_height e s - 1 - y) =
               fmul e (fabs (parsed_scale e s))
                 (if shallSwapBytes e (parsed_scale e s)
                  then swapBytes (sample_buffer e s n ! nat ((y * parsed_width e s + x) * int n + int c))
                  else sample_buffer e s n ! nat ((y * parsed_width e s + x) * int n + int c)))"
proof -
  note cp = header_accepted_checks [OF assms(1)]
  note pc = decode_full_read(2) [OF cp assms(2)]
  have n: "numChannels_of (parsed_magic e s) = Some n"
    and pos: "0 < parsed_width e s" "0 < parsed_height e s"
    using assms(1) by (simp_all add: header_accepted_def)
  have dec: "fst (decode e s) = Inr (decoded_channels e s n)"
    by (rule decode_small [OF assms(3) cp pc pos assms(4)])
  show ?thesis
    using dec decode_cells(1,4) [OF dec assms(3) n] by blast
qed

theorem decode_vertical_flip_witness:
  "header_accepted example_env flip_stream 1
   \<and> available (payload_stream example_env flip_stream) = 16
   \<and> valid_schedule example_env 2
   \<and> sample_buffer example_env flip_stream 1 = [0x3F800000, 0x40000000, 0x40400000, 0x40800000]
   \<and> (\<exists>chans. fst (decode example_env flip_stream) = Inr chans \<and> length chans = 1
        \<and> at (chans ! 0) (0, 0) = 0x40400000 \<and> at (chans ! 0) (1, 0) = 0x40800000
        \<and> at (chans ! 0) (0, 1) = 0x3F800000 \<and> at (chans ! 0) (1, 1) = 0x40000000)"
proof -
  have h: "header_accepted example_env flip_stream 1"
    "available (payload_stream example_env flip_stream) = 16"
    "valid_schedule example_env 2"
    by code_simp+
  have v: "parsed_width example_env flip_stream = 2" "parsed_height example_env flip_stream = 2"
    "parsed_scale example_env flip_stream = 0xBF800000"
    "sample_buffer example_env flip_stream 1 = [0x3F800000, 0x40000000, 0x40400000, 0x40800000]"
    "\<not> shallSwapBytes example_env 0xBF800000" "fabs 0xBF800000 = 0x3F800000"
    by code_simp+
  have m: "\<And>b. fmul example_env 0x3F800000 b = b"
    by (simp add: example_env_def)
  have s: "valid_schedule example_env (nat (parsed_height example_env flip_stream))"
    using h(3) by (simp add: v)
  have b: "parsed_width example_env flip_stream * parsed_height example_env flip_stream * int 1
      \<le> 2147483648"
    by (simp add: v)
  have a: "parsed_width example_env flip_stream * parsed_height example_env flip_stream * int 1 * 4
      \<le> int (available (payload_stream example_env flip_stream))"
    by (simp add: v h)
  have v': "sample_buffer example_env flip_stream (Suc 0) =
      [0x3F800000, 0x40000000, 0x40400000, 0x40800000]"
    using v(4) by simp
  let ?w = "parsed_width example_env flip_stream" and ?h = "parsed_height example_env flip_stream"
  let ?buf = "sample_buffer example_env flip_stream 1"
  let ?sc = "parsed_scale example_env flip_stream"
  obtain chans where d: "fst (decode example_env flip_stream) = Inr chans" "length chans = 1"
    and c: "\<forall>y x c. 0 \<le> y \<and> y < ?h \<and> 0 \<le> x \<and> x < ?w \<and> c < 1 \<longrightarrow>
           nat ((y * ?w + x) * int 1 + int c) < length ?buf
           \<and> at (chans ! c) (x, ?h - 1 - y) =
               fmul example_env (fabs ?sc)
                 (if shallSwapBytes example_env ?sc
                  then swapBytes (?buf ! nat ((y * ?w + x) * int 1 + int c))
                  else ?buf ! nat ((y * ?w + x) * int 1 + int c))"
    using decode_vertical_flip [OF h(1) a s b] by blast
  have "at (chans ! 0) (0, 0) = 0x40400000" "at (chans ! 0) (1, 0) = 0x40800000"
    "at (chans ! 0) (0, 1) = 0x3F800000" "at (chans ! 0) (1, 1) = 0x40000000"
    using c [rule_format, of 1 0 0] c [rule_format, of 1 1 0]
      c [rule_format, of 0 0 0] c [rule_format, of 0 1 0]
    by (simp_all add: v v' m)
  then show ?thesis
    using h v d by blast
qed

text \<open>
  C1 fails on the code for an image of more than \<open>2^31\<close> floats. The flat index of line 77
  is computed in 64 bits and stored in an \<^verbatim>\<open>int\<close>; from \<open>2^31\<close> on the stored value is
  negative (or the sum \<open>baseIdx + c\<close> overflows), and line 79 reads outside \<open>data\<close>. With
  an accepted header, a complete payload and every row run once, the run has undefined
  behaviour and returns no channels.
\<close>

theorem flat_index_overflow:
  assumes "header_accepted e s n"
    and "parsed_width e s * parsed_height e s * int n * 4 \<le> int (available (payload_stream e s))"
    and "valid_schedule e (nat (parsed_height e s))"
    and "2147483648 < parsed_width e s * parsed_height e s * int n"
  shows "fst (load e s sel) = Inl Undefined_read"
proof -
  note cp = header_accepted_checks [OF assms(1)]
  note pc = decode_full_read(2) [OF cp assms(2)]
  have pos: "0 < parsed_width e s" "0 < parsed_height e s"
    using assms(1) by (simp_all add: header_accepted_def)
  show ?thesis
    using decode_overflow [OF assms(3) cp pc pos assms(4)] by (simp add: load_Inl)
qed

theorem flat_index_overflow_witness:
  "valid_schedule example_env 1
   \<and> header_accepted example_env huge_stream 4
   \<and> available (payload_stream example_env huge_stream) = 8589934608
   \<and> parsed_width example_env huge_stream = 536870913
   \<and> parsed_height example_env huge_stream = 1
   \<and> length (sample_buffer example_env huge_stream 4) = 2147483652
   \<and> narrow_int ((0 * 536870913 + 536870912) * 4) = - 2147483648
   \<and> \<not> index_ok (sample_buffer example_env huge_stream 4) 536870913 4 0 536870912 0
   \<and> fst (load example_env huge_stream []) = Inl Undefined_read"
proof -
  have v: "valid_schedule example_env 1"
    by code_simp
  then have s: "valid_schedule example_env (nat (parsed_height example_env huge_stream))"
    by (simp add: huge_facts)
  have a: "parsed_width example_env huge_stream * parsed_height example_env huge_stream * int 4 * 4
      \<le> int (available (payload_stream example_env huge_stream))"
    by (simp add: huge_facts huge_available)
  have n: "narrow_int ((0 * 536870913 + 536870912) * 4) = - 2147483648"
    using narrow_int_wrap by simp
  then have i: "\<not> index_ok (sample_buffer example_env huge_stream 4) 536870913 4 0 536870912 0"
    by (simp add: index_ok_def)
  note pc = decode_full_read(2) [OF header_accepted_checks [OF huge_accepted] a]
  have l: "length (sample_buffer example_env huge_stream 4) = 2147483652"
    by (simp add: length_sample_buffer [OF pc] huge_facts)
  have "fst (load example_env huge_stream []) = Inl Undefined_read"
    by (rule flat_index_overflow [OF huge_accepted a s]) (simp add: huge_facts)
  then show ?thesis
    using v huge_accepted huge_available huge_facts n i l by simp
qed

section \<open>Channel selection\<close>

text \<open>
  C6. After a run that decoded the channels \<open>chans\<close>, the result of \<open>load\<close> holds the
  channels at the indices \<open>idxs\<close>, each index once, and these are the indices of the
  channels for which the matcher reports a match; nothing else is returned and nothing
  fails. With an empty selector the indices are in increasing order, so the channels keep
  their decoded order, and when the matcher accepts every name for the empty selector
  (as the specification says it does) the result is \<open>chans\<close> itself. With a selector that
  is not empty the indices are ordered by match id, and by index where the ids are equal.
  The result has the one layer with the empty name, and the flag is false.
\<close>

theorem channel_selection:
  assumes "fst (decode e s) = Inr chans"
  shows "\<exists>r idxs. fst (load e s sel) = Inr (r, False) \<and> layers r = [[]]
     \<and> channels r = map (\<lambda>i. chans ! i) idxs
     \<and> distinct idxs
     \<and> set idxs = {i. i < length chans \<and> matchesFuzzy e (name (chans ! i)) sel \<noteq> None}
     \<and> (sel = [] \<longrightarrow> sorted_wrt (<) idxs)
     \<and> (sel = [] \<and> (\<forall>i<length chans. matchesFuzzy e (name (chans ! i)) [] \<noteq> None) \<longrightarrow>
          channels r = chans)
     \<and> (sel \<noteq> [] \<longrightarrow>
          sorted_wrt (\<lambda>i j. the (matchesFuzzy e (name (chans ! i)) sel)
                               < the (matchesFuzzy e (name (chans ! j)) sel)
                            \<or> the (matchesFuzzy e (name (chans ! i)) sel)
                               = the (matchesFuzzy e (name (chans ! j)) sel) \<and> i < j) idxs)"
proof -
  let ?P = "\<lambda>i. matchesFuzzy e (name (chans ! i)) sel \<noteq> None"
  let ?rank = "\<lambda>i. the (matchesFuzzy e (name (chans ! i)) sel)"
  let ?M = "map (\<lambda>i. (?rank i, i)) (filter ?P [0..<length chans])"
  obtain s' where d: "decode e s = (Inr chans, s')"
    using assms by (cases "decode e s") simp
  show ?thesis
  proof (cases "sel = []")
    case True
    let ?idxs = "filter ?P [0..<length chans]"
    have l: "fst (load e s sel) = Inr (\<lparr>channels = map (\<lambda>i. chans ! i) ?idxs, layers = [[]]\<rparr>, False)"
      by (simp add: load_of_decode d True comp_def)
    have all: "map (\<lambda>i. chans ! i) ?idxs = chans"
      if "\<forall>i<length chans. matchesFuzzy e (name (chans ! i)) [] \<noteq> None"
    proof -
      have "?idxs = [0..<length chans]"
        using that True by (simp add: filter_id_conv)
      then show ?thesis
        by (simp add: map_nth)
    qed
    have "distinct ?idxs" "set ?idxs = {i. i < length chans \<and> ?P i}" "sorted_wrt (<) ?idxs"
      by (auto intro: sorted_wrt_filter)
    then show ?thesis
      using l all True by (intro exI [of _ "\<lparr>channels = map (\<lambda>i. chans ! i) ?idxs, layers = [[]]\<rparr>"]
          exI [of _ ?idxs]) simp
  next
    case False
    let ?idxs = "map snd (sort ?M)"
    have l: "fst (load e s sel) = Inr (\<lparr>channels = map (\<lambda>i. chans ! i) ?idxs, layers = [[]]\<rparr>, False)"
      by (simp add: load_of_decode d False comp_def)
    note so = selection_order [of ?rank ?P "length chans"]
    show ?thesis
      using l so False by (intro exI [of _ "\<lparr>channels = map (\<lambda>i. chans ! i) ?idxs, layers = [[]]\<rparr>"]
          exI [of _ ?idxs]) simp
  qed
qed

theorem channel_selection_witness:
  "\<exists>chans. fst (decode example_env rgb_stream) = Inr chans
     \<and> map name chans = [''R'', ''G'', ''B'']
     \<and> (\<exists>r. fst (load example_env rgb_stream ''BR'') = Inr (r, False)
            \<and> map name (channels r) = [''B'', ''R''] \<and> layers r = [[]])
     \<and> (\<exists>r. fst (load example_env rgb_stream []) = Inr (r, False)
            \<and> map name (channels r) = [''R'', ''G'', ''B''] \<and> layers r = [[]])"
proof -
  have "case decode example_env rgb_stream of (Inr chs, _) \<Rightarrow> map name chs = [''R'', ''G'', ''B'']
        | (Inl _, _) \<Rightarrow> False"
    by code_simp
  then obtain chans where d: "fst (decode example_env rgb_stream) = Inr chans"
    and n: "map name chans = [''R'', ''G'', ''B'']"
    by (auto split: prod.splits sum.splits)
  have e1: "case fst (load example_env rgb_stream ''BR'') of
        Inr (r, _) \<Rightarrow> map name (channels r) = [''B'', ''R''] | Inl _ \<Rightarrow> False"
    by code_simp
  have e2: "case fst (load example_env rgb_stream []) of
        Inr (r, _) \<Rightarrow> map name (channels r) = [''R'', ''G'', ''B''] | Inl _ \<Rightarrow> False"
    by code_simp
  have a: "\<exists>r. fst (load example_env rgb_stream ''BR'') = Inr (r, False)
            \<and> map name (channels r) = [''B'', ''R''] \<and> layers r = [[]]"
    using channel_selection [OF d, of "''BR''"] e1 by auto
  have b: "\<exists>r. fst (load example_env rgb_stream []) = Inr (r, False)
            \<and> map name (channels r) = [''R'', ''G'', ''B''] \<and> layers r = [[]]"
    using channel_selection [OF d, of "[]"] e2 by auto
  show ?thesis
    using d n a b by (intro exI [of _ chans]) simp
qed

lemma load_schedule:
  assumes "valid_schedule e (nat (parsed_height e s))"
    and "valid_schedule (e\<lparr>schedule := sch\<rparr>) (nat (parsed_height e s))"
  shows "load (e\<lparr>schedule := sch\<rparr>) s sel = load e s sel"
  by (simp add: load_def decode_schedule [OF assms] split: prod.split sum.split)

lemma row_writes_key:
  "(c, p, v) \<in> set (row_writes e data sw scale (w, h) n y) \<Longrightarrow> snd p = h - y - 1"
  by (auto simp: row_writes_def)

lemma row_writes_disjoint:
  assumes "y \<noteq> y'"
  shows "(\<lambda>(c, p, v). (c, p)) ` set (row_writes e data sw scale (w, h) n y)
       \<inter> (\<lambda>(c, p, v). (c, p)) ` set (row_writes e data sw scale (w, h) n y') = {}"
proof (rule ccontr)
  assume "(\<lambda>(c, p, v). (c, p)) ` set (row_writes e data sw scale (w, h) n y)
       \<inter> (\<lambda>(c, p, v). (c, p)) ` set (row_writes e data sw scale (w, h) n y') \<noteq> {}"
  then obtain c p v1 v2 where "(c, p, v1) \<in> set (row_writes e data sw scale (w, h) n y)"
    and "(c, p, v2) \<in> set (row_writes e data sw scale (w, h) n y')"
    by auto
  then have "snd p = h - y - 1" and "snd p = h - y' - 1"
    by (auto dest: row_writes_key)
  then show False
    using assms by simp
qed

lemma writes_interleaved:
  assumes "set ws = set (all_writes e data sw scale (w, h) n ys)"
  shows "fold cell_write ws chans = fold cell_write (all_writes e data sw scale (w, h) n ys) chans"
proof -
  let ?F = "\<lambda>c p. decoded_value e data sw scale w n (h - 1 - snd p) (fst p) c"
  have "\<And>c p v. (c, p, v) \<in> set (all_writes e data sw scale (w, h) n ys) \<Longrightarrow> v = ?F c p"
    unfolding set_all_writes by auto
  then show ?thesis
    using fold_cell_write_cong [of "all_writes e data sw scale (w, h) n ys" ?F ws chans] assms
    by blast
qed

section \<open>The order of the rows\<close>

text \<open>
  C9. The rows of the parallel loop are run one after another in the order of the
  schedule. For a fixed input, any two schedules that run every row exactly once (the
  sequential one among them) give the same result of \<open>load\<close>, the same stream and the same
  error if there is one; two different rows write to disjoint sets of cells; and the
  writes of all rows, made one at a time in any order or interleaving, leave the channels
  that the loop leaves. The buffer \<open>data\<close> is an argument of the loop that no write
  changes.
\<close>

theorem row_order_irrelevant:
  assumes "valid_schedule e (nat (parsed_height e s))"
    and "valid_schedule (e\<lparr>schedule := sch\<rparr>) (nat (parsed_height e s))"
  shows "load (e\<lparr>schedule := sch\<rparr>) s sel = load e s sel
     \<and> (\<forall>y y' data sw scale n. y \<noteq> y' \<longrightarrow>
          (\<lambda>(c, p, v). (c, p)) ` set (row_writes e data sw scale (parsed_width e s, parsed_height e s) n y)
          \<inter> (\<lambda>(c, p, v). (c, p)) ` set (row_writes e data sw scale (parsed_width e s, parsed_height e s) n y')
          = {})
     \<and> (\<forall>n ws.
          set ws = set (all_writes e (sample_buffer e s n) (shallSwapBytes e (parsed_scale e s))
                     (fabs (parsed_scale e s)) (parsed_width e s, parsed_height e s) n
                     (map int (schedule e (nat (parsed_height e s))))) \<longrightarrow>
          fold cell_write ws (makeNChannels e n (parsed_width e s, parsed_height e s))
            = decoded_channels e s n)"
proof (intro conjI allI impI)
  show "load (e\<lparr>schedule := sch\<rparr>) s sel = load e s sel"
    by (rule load_schedule [OF assms])
next
  fix y y' :: int and data sw scale n
  assume "y \<noteq> y'"
  then show "(\<lambda>(c, p, v). (c, p)) ` set (row_writes e data sw scale (parsed_width e s, parsed_height e s) n y)
          \<inter> (\<lambda>(c, p, v). (c, p)) ` set (row_writes e data sw scale (parsed_width e s, parsed_height e s) n y')
          = {}"
    by (rule row_writes_disjoint)
next
  fix n ws
  assume "set ws = set (all_writes e (sample_buffer e s n) (shallSwapBytes e (parsed_scale e s))
                     (fabs (parsed_scale e s)) (parsed_width e s, parsed_height e s) n
                     (map int (schedule e (nat (parsed_height e s)))))"
  then show "fold cell_write ws (makeNChannels e n (parsed_width e s, parsed_height e s))
            = decoded_channels e s n"
    unfolding decoded_channels_def by (rule writes_interleaved)
qed

theorem row_order_irrelevant_witness:
  "valid_schedule example_env 2
   \<and> valid_schedule (example_env\<lparr>schedule := \<lambda>n. [0..<n]\<rparr>) 2
   \<and> schedule example_env 2 = [1, 0]
   \<and> schedule (example_env\<lparr>schedule := \<lambda>n. [0..<n]\<rparr>) 2 = [0, 1]
   \<and> load (example_env\<lparr>schedule := \<lambda>n. [0..<n]\<rparr>) flip_stream [] = load example_env flip_stream []"
proof -
  have h: "valid_schedule example_env 2"
    "valid_schedule (example_env\<lparr>schedule := \<lambda>n. [0..<n]\<rparr>) 2"
    "parsed_height example_env flip_stream = 2"
    "schedule example_env 2 = [1, 0]"
    "schedule (example_env\<lparr>schedule := \<lambda>n. [0..<n]\<rparr>) 2 = [0, 1]"
    by code_simp+
  have a: "valid_schedule example_env (nat (parsed_height example_env flip_stream))"
    "valid_schedule (example_env\<lparr>schedule := \<lambda>n. [0..<n]\<rparr>)
       (nat (parsed_height example_env flip_stream))"
    using h by simp_all
  show ?thesis
    using row_order_irrelevant [OF a, of "[]"] h by simp
qed

lemma neg_scale_facts:
  "isfinite 0xC0200000" "\<not> is_zero 0xC0200000" "less_zero 0xC0200000"
  "fabs 0xC0200000 = 0x40200000"
  by code_simp+

lemma less_zero_sign: "isfinite f \<Longrightarrow> \<not> is_zero f \<Longrightarrow> less_zero f = bit f 31"
  by (auto simp: less_zero_def isnan_def isfinite_def)

section \<open>The scale\<close>

text \<open>
  C2, as the code has it. A parsed scale that is not finite or is zero makes \<open>load\<close> fail
  with an error of the kind \<open>InvalidFormat\<close>. Otherwise the sign bit of the scale says
  that the source is little-endian; the bytes of a sample are swapped exactly when the
  host and the source differ in that; and every decoded sample is the product of the
  absolute value of the scale and the sample so read. For the scale -2.5 the factor is
  2.5, and the bytes are swapped exactly on a big-endian host.
\<close>

theorem scale_sign_and_magnitude:
  "(\<not> isfinite (parsed_scale e s) \<or> is_zero (parsed_scale e s) \<longrightarrow>
      (\<exists>err. fst (load e s sel) = Inl err \<and> InvalidFormat err))
   \<and> (isfinite (parsed_scale e s) \<and> \<not> is_zero (parsed_scale e s) \<longrightarrow>
        less_zero (parsed_scale e s) = bit (parsed_scale e s) 31
        \<and> shallSwapBytes e (parsed_scale e s)
            = (isSystemLittleEndian e \<noteq> less_zero (parsed_scale e s)))
   \<and> (fst (decode e s) = Inr chans \<and> valid_schedule e (nat (parsed_height e s))
        \<and> numChannels_of (parsed_magic e s) = Some n
        \<and> 0 \<le> y \<and> y < parsed_height e s \<and> 0 \<le> x \<and> x < parsed_width e s \<and> c < n \<longrightarrow>
        isfinite (parsed_scale e s) \<and> \<not> is_zero (parsed_scale e s)
        \<and> at (chans ! c) (x, parsed_height e s - 1 - y) =
            fmul e (fabs (parsed_scale e s))
              (if isSystemLittleEndian e \<noteq> less_zero (parsed_scale e s)
               then swapBytes (sample_buffer e s n ! nat ((y * parsed_width e s + x) * int n + int c))
               else sample_buffer e s n ! nat ((y * parsed_width e s + x) * int n + int c)))
   \<and> isfinite 0xC0200000 \<and> \<not> is_zero 0xC0200000 \<and> less_zero 0xC0200000
   \<and> fabs 0xC0200000 = 0x40200000
   \<and> shallSwapBytes e 0xC0200000 = (\<not> isSystemLittleEndian e)"
proof -
  have a: "\<exists>err. fst (load e s sel) = Inl err \<and> InvalidFormat err"
    if "\<not> isfinite (parsed_scale e s) \<or> is_zero (parsed_scale e s)"
    using decode_invalid_scale [OF that] by (auto simp: load_Inl)
  have b: "isfinite (parsed_scale e s) \<and> \<not> is_zero (parsed_scale e s)
        \<and> at (chans ! c) (x, parsed_height e s - 1 - y) =
            fmul e (fabs (parsed_scale e s))
              (if isSystemLittleEndian e \<noteq> less_zero (parsed_scale e s)
               then swapBytes (sample_buffer e s n ! nat ((y * parsed_width e s + x) * int n + int c))
               else sample_buffer e s n ! nat ((y * parsed_width e s + x) * int n + int c))"
    if dec: "fst (decode e s) = Inr chans" and sch: "valid_schedule e (nat (parsed_height e s))"
      and n: "numChannels_of (parsed_magic e s) = Some n"
      and r: "0 \<le> y" "y < parsed_height e s" "0 \<le> x" "x < parsed_width e s" "c < n"
  proof -
    obtain n' where "checks_pass e s n'"
      using decode_Inr [OF dec] by blast
    then have "isfinite (parsed_scale e s) \<and> \<not> is_zero (parsed_scale e s)"
      by (simp add: checks_pass_def)
    then show ?thesis
      using decode_cells(4) [OF dec sch n r] by (simp add: shallSwapBytes_def)
  qed
  show ?thesis
    using a b neg_scale_facts less_zero_sign [of "parsed_scale e s"]
    by (simp add: shallSwapBytes_def)
qed

theorem scale_sign_and_magnitude_witness:
  "parsed_scale example_env_be scaled_stream = 0xC0200000
   \<and> \<not> isSystemLittleEndian example_env_be
   \<and> shallSwapBytes example_env_be 0xC0200000
   \<and> valid_schedule example_env_be 1
   \<and> sample_buffer example_env_be scaled_stream 1 = [0x00000040]
   \<and> swapBytes 0x00000040 = 0x40000000
   \<and> (\<exists>chans. fst (decode example_env_be scaled_stream) = Inr chans
        \<and> at (chans ! 0) (0, 0) = 0x40A00000)
   \<and> parsed_scale example_env zero_scale_stream = 0
   \<and> fst (load example_env zero_scale_stream []) = Inl (Invalid_scale 0)"
proof -
  have h: "parsed_scale example_env_be scaled_stream = 0xC0200000"
    "\<not> isSystemLittleEndian example_env_be"
    "valid_schedule example_env_be 1"
    "sample_buffer example_env_be scaled_stream 1 = [0x00000040]"
    "swapBytes 0x00000040 = 0x40000000"
    "parsed_width example_env_be scaled_stream = 1" "parsed_height example_env_be scaled_stream = 1"
    "numChannels_of (parsed_magic example_env_be scaled_stream) = Some 1"
    "fmul example_env_be 0x40200000 0x40000000 = 0x40A00000"
    "parsed_scale example_env zero_scale_stream = 0" "is_zero 0"
    by code_simp+
  have "case decode example_env_be scaled_stream of (Inr _, _) \<Rightarrow> True | (Inl _, _) \<Rightarrow> False"
    by code_simp
  then obtain chans where d: "fst (decode example_env_be scaled_stream) = Inr chans"
    by (auto split: prod.splits sum.splits)
  have z: "case fst (load example_env zero_scale_stream []) of
      Inl err \<Rightarrow> err = Invalid_scale 0 | Inr _ \<Rightarrow> False"
    by code_simp
  have h': "sample_buffer example_env_be scaled_stream (Suc 0) = [0x00000040]"
    using h(4) by simp
  have "at (chans ! 0) (0, 0) = 0x40A00000"
    using scale_sign_and_magnitude [of example_env_be scaled_stream _ chans 1 0 0 0] d h
    by (simp add: h')
  moreover have "shallSwapBytes example_env_be 0xC0200000"
    using scale_sign_and_magnitude [of example_env_be scaled_stream] h(2) by simp
  moreover have "fst (load example_env zero_scale_stream []) = Inl (Invalid_scale 0)"
    using scale_sign_and_magnitude [of example_env zero_scale_stream "[]"] h(10,11) z
    by (auto split: sum.splits)
  ultimately show ?thesis
    using h d by simp
qed

text \<open>
  On a little-endian host the scale -2.5 decodes with the factor 2.5 and without
  swapping: the sample 2.0 is taken as the file has it and 5.0 is stored.
\<close>

theorem negative_scale_swap_counterexample:
  "isSystemLittleEndian example_env
   \<and> parsed_scale example_env scaled_stream = 0xC0200000
   \<and> \<not> shallSwapBytes example_env (parsed_scale example_env scaled_stream)
   \<and> sample_buffer example_env scaled_stream 1 = [0x40000000]
   \<and> fabs (parsed_scale example_env scaled_stream) = 0x40200000
   \<and> (\<exists>chans. fst (decode example_env scaled_stream) = Inr chans
        \<and> at (chans ! 0) (0, 0) = 0x40A00000)"
proof -
  have h: "isSystemLittleEndian example_env"
    "parsed_scale example_env scaled_stream = 0xC0200000"
    "\<not> shallSwapBytes example_env (parsed_scale example_env scaled_stream)"
    "sample_buffer example_env scaled_stream 1 = [0x40000000]"
    "fabs (parsed_scale example_env scaled_stream) = 0x40200000"
    by code_simp+
  have "case decode example_env scaled_stream of
      (Inr chs, _) \<Rightarrow> at (chs ! 0) (0, 0) = 0x40A00000 | (Inl _, _) \<Rightarrow> False"
    by code_simp
  then have "\<exists>chans. fst (decode example_env scaled_stream) = Inr chans
        \<and> at (chans ! 0) (0, 0) = 0x40A00000"
    by (auto split: prod.splits sum.splits)
  then show ?thesis
    using h by simp
qed

lemma byte_mask: "(x :: 32 word) AND 0xFF = take_bit 8 x"
proof -
  have "(0xFF :: 32 word) = mask 8"
    by (simp add: mask_eq_exp_minus_1)
  then show ?thesis
    by (simp add: take_bit_eq_mask)
qed

lemma byte_shift_same: "take_bit 8 (drop_bit k (push_bit k (take_bit 8 b))) = take_bit 8 (b :: 32 word)"
  if "k \<le> 24"
  using that by (intro bit_eqI) (auto simp: bit_simps)

lemma byte_shift_above: "take_bit 8 (drop_bit k (push_bit m (take_bit 8 b))) = (0 :: 32 word)"
  if "k + 8 \<le> m"
  using that by (intro bit_eqI) (auto simp: bit_simps)

lemma byte_shift_below: "take_bit 8 (drop_bit k (push_bit m (take_bit 8 b))) = (0 :: 32 word)"
  if "m + 8 \<le> k"
  using that by (intro bit_eqI) (auto simp: bit_simps)

lemma byte_drop: "take_bit 8 (drop_bit k (take_bit 8 b)) = (0 :: 32 word)" if "8 \<le> k"
  using that by (intro bit_eqI) (auto simp: bit_simps)

lemma byte_push: "take_bit 8 (push_bit m (take_bit 8 b)) = (0 :: 32 word)" if "8 \<le> m"
  using that by (intro bit_eqI) (auto simp: bit_simps)

lemma swapBytes_alt:
  "swapBytes f =
     push_bit 24 (take_bit 8 f) OR push_bit 16 (take_bit 8 (drop_bit 8 f))
       OR push_bit 8 (take_bit 8 (drop_bit 16 f)) OR take_bit 8 (drop_bit 24 f)"
  by (simp only: swapBytes_def byte_mask)

lemma swap_assemble:
  fixes a b c d :: "32 word"
  defines "f \<equiv> take_bit 8 a OR push_bit 8 (take_bit 8 b) OR push_bit 16 (take_bit 8 c)
            OR push_bit 24 (take_bit 8 d)"
  shows "swapBytes f
       = take_bit 8 d OR push_bit 8 (take_bit 8 c) OR push_bit 16 (take_bit 8 b)
            OR push_bit 24 (take_bit 8 a)"
proof -
  have t0: "take_bit 8 f = take_bit 8 a"
    unfolding f_def by (simp add: byte_push)
  have t1: "take_bit 8 (drop_bit 8 f) = take_bit 8 b"
    unfolding f_def by (simp add: byte_drop byte_shift_same byte_shift_above)
  have t2: "take_bit 8 (drop_bit 16 f) = take_bit 8 c"
    unfolding f_def by (simp add: byte_drop byte_shift_same byte_shift_above byte_shift_below)
  have t3: "take_bit 8 (drop_bit 24 f) = take_bit 8 d"
    unfolding f_def by (simp add: byte_drop byte_shift_same byte_shift_above byte_shift_below)
  show ?thesis
    unfolding swapBytes_alt t0 t1 t2 t3 by (simp only: ac_simps)
qed

lemma of_char_byte: "take_bit 8 (of_char c :: 32 word) = of_char c"
proof -
  have "take_bit 8 (of_char c :: nat) = of_char c"
    by (simp add: take_bit_eq_mod)
  then have "(of_nat (take_bit 8 (of_char c :: nat)) :: 32 word) = of_nat (of_char c)"
    by simp
  then show ?thesis
    by (simp only: of_nat_of_char take_bit_of_nat [symmetric])
qed

lemma swapBytes_float_of_bytes:
  "swapBytes (float_of_bytes little bs) = float_of_bytes (\<not> little) bs"
proof -
  have s: "swapBytes (of_char p OR push_bit 8 (of_char q) OR push_bit 16 (of_char r)
             OR push_bit 24 (of_char t))
       = of_char t OR push_bit 8 (of_char r) OR push_bit 16 (of_char q)
            OR push_bit 24 (of_char p)" for p q r t :: char
    using swap_assemble [of "of_char p" "of_char q" "of_char r" "of_char t"]
    by (simp only: of_char_byte)
  show ?thesis
    by (cases little) (simp_all add: float_of_bytes_def Let_def s)
qed

section \<open>The byte order of the samples\<close>

text \<open>
  The float that line 88 multiplies by the scale is made of the four bytes of the sample
  in the byte order the sign of the scale names, the first byte the least significant one
  for a negative scale and the most significant one for a positive scale, whatever the
  byte order of the host: where the host differs from the source, \<open>swapBytes\<close> undoes the
  difference.
\<close>

theorem sample_byte_order:
  assumes "k < length (sample_buffer e s n)"
  shows "(if shallSwapBytes e (parsed_scale e s) then swapBytes (sample_buffer e s n ! k)
          else sample_buffer e s n ! k)
       = float_of_bytes (less_zero (parsed_scale e s)) (take 4 (drop (4 * k) (payload e s n)))"
proof -
  have "sample_buffer e s n ! k =
      float_of_bytes (isSystemLittleEndian e) (take 4 (drop (4 * k) (payload e s n)))"
    using assms by (simp add: sample_buffer_def floats_of_bytes_def)
  then show ?thesis
    by (cases "isSystemLittleEndian e"; cases "less_zero (parsed_scale e s)")
      (simp_all add: shallSwapBytes_def swapBytes_float_of_bytes)
qed

theorem sample_byte_order_witness:
  "length (sample_buffer example_env flip_stream 1) = 4
   \<and> length (sample_buffer example_env_be flip_stream 1) = 4
   \<and> less_zero (parsed_scale example_env flip_stream)
   \<and> sample_buffer example_env flip_stream 1 ! 0 = 0x3F800000
   \<and> sample_buffer example_env_be flip_stream 1 ! 0 = 0x0000803F
   \<and> swapBytes 0x0000803F = 0x3F800000
   \<and> \<not> shallSwapBytes example_env (parsed_scale example_env flip_stream)
   \<and> shallSwapBytes example_env_be (parsed_scale example_env_be flip_stream)
   \<and> float_of_bytes True (take 4 (drop (4 * 0) (payload example_env flip_stream 1))) = 0x3F800000
   \<and> float_of_bytes True (take 4 (drop (4 * 0) (payload example_env_be flip_stream 1))) = 0x3F800000"
proof -
  have h: "length (sample_buffer example_env flip_stream 1) = 4"
    "length (sample_buffer example_env_be flip_stream 1) = 4"
    "less_zero (parsed_scale example_env flip_stream)"
    "less_zero (parsed_scale example_env_be flip_stream)"
    "sample_buffer example_env flip_stream 1 ! 0 = 0x3F800000"
    "sample_buffer example_env_be flip_stream 1 ! 0 = 0x0000803F"
    "\<not> shallSwapBytes example_env (parsed_scale example_env flip_stream)"
    "shallSwapBytes example_env_be (parsed_scale example_env_be flip_stream)"
    "swapBytes 0x0000803F = 0x3F800000"
    by code_simp+
  have k: "0 < length (sample_buffer example_env flip_stream 1)"
    "0 < length (sample_buffer example_env_be flip_stream 1)"
    using h by simp_all
  show ?thesis
    using sample_byte_order [OF k(1)] sample_byte_order [OF k(2)] h
    by simp
qed

end
